theory Spec2Isabelle
  imports Main "HOL-Library.AList" "HOL-Library.Multiset"
begin

section \<open>Data model (internal/models/contact.go)\<close>

text \<open>
  A row of the \<open>contacts\<close> table, as \<open>models.Contact\<close> holds it. \<open>int64\<close> ids are
  \<open>int\<close> (they are only compared for equality), a \<open>*string\<close> or \<open>*int64\<close> is an
  \<open>option\<close> (\<open>None\<close> for \<open>nil\<close>, SQL \<open>NULL\<close>), \<open>LinkPrecedence\<close> is the Go
  string, and a \<open>time.Time\<close> is an \<open>int\<close> (an instant on the time line), so that
  \<open>a.Before(b)\<close> is \<open>a < b\<close>.
\<close>

record Contact =
  ID :: int
  PhoneNumber :: "string option"
  Email :: "string option"
  LinkedID :: "int option"
  LinkPrecedence :: string
  CreatedAt :: int
  UpdatedAt :: int
  DeletedAt :: "int option"

text \<open>\<open>models.IdentifyRequest\<close>; the fields carry their JSON names.\<close>

record IdentifyRequest =
  email :: "string option"
  phoneNumber :: "string option"

text \<open>\<open>models.ContactResponse\<close>, the body of \<open>models.IdentifyResponse\<close>.\<close>

record ContactResponse =
  PrimaryContactID :: int
  Emails :: "string list"
  PhoneNumbers :: "string list"
  SecondaryContactIDs :: "int list"

section \<open>The store and the environment\<close>

text \<open>
  Every call of the service on \<open>s.db.Conn\<close> is one entry of the operation log, in the
  order the calls are made; a call that fails is logged too.
\<close>

datatype dbop =
    SelectByEmail string
  | SelectByPhoneNumber string
  | SelectByLinkedID int
  | SelectGroup int
  | InsertContact Contact
  | UpdateContact int string "int option"

text \<open>
  The database: the rows of \<open>contacts\<close> in insertion order, the next value of the
  auto-assigned key (\<open>AUTOINCREMENT\<close>, \<open>SERIAL\<close>), and the log of the calls made.
\<close>

record store =
  rows :: "Contact list"
  nextID :: int
  oplog :: "dbop list"

definition emptyStore :: store where
  "emptyStore = \<lparr>rows = [], nextID = 1, oplog = []\<rparr>"

text \<open>
  What one run of \<open>Identify\<close> takes from outside the code: the reading of
  \<open>time.Now()\<close> (one reading for the run: a run inserts at most one row, and the
  \<open>updated_at\<close> that an update writes is never read); which store calls fail (by the
  number of calls made before; a failure of \<open>Query\<close>, \<open>Scan\<close>, \<open>QueryRow\<close> or
  \<open>Exec\<close> is the one \<open>StorageError\<close>); the order in which a query yields its rows (no
  query has an \<open>ORDER BY\<close>); and the order in which each \<open>range\<close> over a Go map yields
  its entries, which Go leaves unspecified: one function for each loop over a map.
\<close>

record env =
  now :: int
  dbFails :: "nat \<Rightarrow> bool"
  rowOrder :: "Contact list \<Rightarrow> Contact list"
  linkedIDOrder :: "int list \<Rightarrow> int list"
  contactOrder :: "Contact list \<Rightarrow> Contact list"
  emailOrder :: "string list \<Rightarrow> string list"
  phoneOrder :: "string list \<Rightarrow> string list"

text \<open>An order only rearranges: every function of the environment is a permutation.\<close>

definition env_ok :: "env \<Rightarrow> bool" where
  "env_ok e =
     ((\<forall>xs. mset (rowOrder e xs) = mset xs) \<and>
      (\<forall>xs. mset (linkedIDOrder e xs) = mset xs) \<and>
      (\<forall>xs. mset (contactOrder e xs) = mset xs) \<and>
      (\<forall>xs. mset (emailOrder e xs) = mset xs) \<and>
      (\<forall>xs. mset (phoneOrder e xs) = mset xs))"

text \<open>The environment in which nothing fails and every order is the stored one.\<close>

definition plainEnv :: "int \<Rightarrow> env" where
  "plainEnv t =
     \<lparr>now = t, dbFails = (\<lambda>n. False), rowOrder = (\<lambda>xs. xs), linkedIDOrder = (\<lambda>xs. xs),
      contactOrder = (\<lambda>xs. xs), emailOrder = (\<lambda>xs. xs), phoneOrder = (\<lambda>xs. xs)\<rparr>"

datatype error = StorageError | NilDereference

section \<open>Queries (internal/service/reconciliation.go)\<close>

text \<open>
  \<open>queryContacts\<close>: the rows that satisfy the \<open>WHERE\<close> clause, or the error of
  \<open>Conn.Query\<close>. The state returned is the store after the call.
\<close>

definition queryContacts ::
  "env \<Rightarrow> dbop \<Rightarrow> (Contact \<Rightarrow> bool) \<Rightarrow> store \<Rightarrow> (error + Contact list) \<times> store" where
  "queryContacts e q wh st =
     (if dbFails e (length (oplog st)) then (Inl StorageError, st\<lparr>oplog := oplog st @ [q]\<rparr>)
      else (Inr (rowOrder e (filter wh (rows st))), st\<lparr>oplog := oplog st @ [q]\<rparr>))"

definition queryContactsByEmail ::
  "env \<Rightarrow> string \<Rightarrow> store \<Rightarrow> (error + Contact list) \<times> store" where
  "queryContactsByEmail e em st =
     queryContacts e (SelectByEmail em) (\<lambda>c. Email c = Some em \<and> DeletedAt c = None) st"

definition queryContactsByPhoneNumber ::
  "env \<Rightarrow> string \<Rightarrow> store \<Rightarrow> (error + Contact list) \<times> store" where
  "queryContactsByPhoneNumber e ph st =
     queryContacts e (SelectByPhoneNumber ph)
       (\<lambda>c. PhoneNumber c = Some ph \<and> DeletedAt c = None) st"

definition queryContactsByLinkedID ::
  "env \<Rightarrow> int \<Rightarrow> store \<Rightarrow> (error + Contact list) \<times> store" where
  "queryContactsByLinkedID e l st =
     queryContacts e (SelectByLinkedID l) (\<lambda>c. LinkedID c = Some l \<and> DeletedAt c = None) st"

definition getAllLinkedContacts ::
  "env \<Rightarrow> int \<Rightarrow> store \<Rightarrow> (error + Contact list) \<times> store" where
  "getAllLinkedContacts e primaryID st =
     queryContacts e (SelectGroup primaryID)
       (\<lambda>c. (ID c = primaryID \<or> LinkedID c = Some primaryID) \<and> DeletedAt c = None) st"

section \<open>Discovery\<close>

text \<open>
  \<open>contactMap\<close> is a Go map from id to contact: an association list with one entry for
  each key, \<open>contactMap[c.ID] = c\<close> being \<open>AList.update\<close>.
\<close>

fun putAll :: "(int \<times> Contact) list \<Rightarrow> Contact list \<Rightarrow> (int \<times> Contact) list" where
  "putAll m [] = m"
| "putAll m (c # cs) = putAll (AList.update (ID c) c m) cs"

text \<open>The loop over \<open>allLinkedIDs\<close>: one query for each linked id, its rows put in the map.\<close>

fun queryAllLinked ::
  "env \<Rightarrow> int list \<Rightarrow> (int \<times> Contact) list \<Rightarrow> store
    \<Rightarrow> (error + (int \<times> Contact) list) \<times> store" where
  "queryAllLinked e [] m st = (Inr m, st)"
| "queryAllLinked e (l # ls) m st =
     (case queryContactsByLinkedID e l st of
        (Inl err, st') \<Rightarrow> (Inl err, st')
      | (Inr linkedContacts, st') \<Rightarrow> queryAllLinked e ls (putAll m linkedContacts) st')"

text \<open>
  The two guarded blocks of \<open>findLinkedContacts\<close>: a field that is \<open>nil\<close> or empty
  makes no query; otherwise the rows found are put in the map.
\<close>

definition addByEmail ::
  "env \<Rightarrow> string option \<Rightarrow> (int \<times> Contact) list \<Rightarrow> store
    \<Rightarrow> (error + (int \<times> Contact) list) \<times> store" where
  "addByEmail e em m st =
     (case em of
        None \<Rightarrow> (Inr m, st)
      | Some a \<Rightarrow>
          if a \<noteq> [] then
            (case queryContactsByEmail e a st of
               (Inl err, st') \<Rightarrow> (Inl err, st')
             | (Inr contacts, st') \<Rightarrow> (Inr (putAll m contacts), st'))
          else (Inr m, st))"

definition addByPhoneNumber ::
  "env \<Rightarrow> string option \<Rightarrow> (int \<times> Contact) list \<Rightarrow> store
    \<Rightarrow> (error + (int \<times> Contact) list) \<times> store" where
  "addByPhoneNumber e ph m st =
     (case ph of
        None \<Rightarrow> (Inr m, st)
      | Some b \<Rightarrow>
          if b \<noteq> [] then
            (case queryContactsByPhoneNumber e b st of
               (Inl err, st') \<Rightarrow> (Inl err, st')
             | (Inr contacts, st') \<Rightarrow> (Inr (putAll m contacts), st'))
          else (Inr m, st))"

text \<open>\<open>allLinkedIDs\<close>, a map used as a set: the linked ids of the map's contacts, each once.\<close>

definition allLinkedIDs :: "(int \<times> Contact) list \<Rightarrow> int list" where
  "allLinkedIDs m = remdups (List.map_filter LinkedID (map snd m))"

definition findLinkedContacts ::
  "env \<Rightarrow> string option \<Rightarrow> string option \<Rightarrow> store \<Rightarrow> (error + Contact list) \<times> store" where
  "findLinkedContacts e em ph st =
     (case addByEmail e em [] st of
        (Inl err, st1) \<Rightarrow> (Inl err, st1)
      | (Inr m1, st1) \<Rightarrow>
          (case addByPhoneNumber e ph m1 st1 of
             (Inl err, st2) \<Rightarrow> (Inl err, st2)
           | (Inr m2, st2) \<Rightarrow>
               (case queryAllLinked e (linkedIDOrder e (allLinkedIDs m2)) m2 st2 of
                  (Inl err, st3) \<Rightarrow> (Inl err, st3)
                | (Inr m3, st3) \<Rightarrow> (Inr (contactOrder e (map snd m3)), st3))))"

section \<open>Choice of the primary, new information\<close>

text \<open>
  \<open>sort.Slice(contacts, less)\<close> with \<open>less\<close> comparing \<open>CreatedAt\<close> by \<open>Before\<close>. It
  sorts the slice in place and does not promise to keep the order of equal elements. On a
  slice of fewer than 12 elements Go runs an insertion sort, which keeps it: that is
  \<open>sort_key\<close>. The slice sorted here is in the order of a \<open>range\<close> over a map, which
  \<open>contactOrder\<close> leaves open, so every record of least \<open>CreatedAt\<close> is first for some
  order.
\<close>

definition sortSlice :: "Contact list \<Rightarrow> Contact list" where
  "sortSlice contacts = sort_key CreatedAt contacts"

text \<open>
  \<open>findOldestContact\<close> returns \<open>contacts[0]\<close> of the sorted slice, \<open>nil\<close> on an empty
  one. The caller's slice is the sorted one afterwards: it is returned too.
\<close>

definition findOldestContact :: "Contact list \<Rightarrow> Contact option \<times> Contact list" where
  "findOldestContact contacts =
     (if length contacts = 0 then (None, contacts)
      else (case sortSlice contacts of
              [] \<Rightarrow> (None, [])
            | c # cs \<Rightarrow> (Some c, c # cs)))"

definition hasNewInformation :: "Contact list \<Rightarrow> string option \<Rightarrow> string option \<Rightarrow> bool" where
  "hasNewInformation contacts em ph =
     (let existingEmails = List.map_filter Email contacts;
          existingPhones = List.map_filter PhoneNumber contacts
      in if (case em of None \<Rightarrow> False | Some a \<Rightarrow> a \<noteq> [] \<and> a \<notin> set existingEmails) then True
         else if (case ph of None \<Rightarrow> False | Some b \<Rightarrow> b \<noteq> [] \<and> b \<notin> set existingPhones)
         then True
         else False)"

section \<open>Writes\<close>

definition createPrimaryContact ::
  "env \<Rightarrow> string option \<Rightarrow> string option \<Rightarrow> store \<Rightarrow> (error + Contact) \<times> store" where
  "createPrimaryContact e em ph st =
     (let c = \<lparr>ID = nextID st, PhoneNumber = ph, Email = em, LinkedID = None,
                LinkPrecedence = ''primary'', CreatedAt = now e, UpdatedAt = now e,
                DeletedAt = None\<rparr>
      in if dbFails e (length (oplog st))
         then (Inl StorageError, st\<lparr>oplog := oplog st @ [InsertContact c]\<rparr>)
         else (Inr c, st\<lparr>rows := rows st @ [c], nextID := nextID st + 1,
                          oplog := oplog st @ [InsertContact c]\<rparr>))"

definition createSecondaryContact ::
  "env \<Rightarrow> string option \<Rightarrow> string option \<Rightarrow> int \<Rightarrow> store \<Rightarrow> (error + Contact) \<times> store" where
  "createSecondaryContact e em ph linkedID st =
     (let c = \<lparr>ID = nextID st, PhoneNumber = ph, Email = em, LinkedID = Some linkedID,
                LinkPrecedence = ''secondary'', CreatedAt = now e, UpdatedAt = now e,
                DeletedAt = None\<rparr>
      in if dbFails e (length (oplog st))
         then (Inl StorageError, st\<lparr>oplog := oplog st @ [InsertContact c]\<rparr>)
         else (Inr c, st\<lparr>rows := rows st @ [c], nextID := nextID st + 1,
                          oplog := oplog st @ [InsertContact c]\<rparr>))"

text \<open>\<open>UPDATE contacts SET link_precedence, linked_id, updated_at WHERE id\<close>.\<close>

definition updateContactPrecedence ::
  "env \<Rightarrow> int \<Rightarrow> string \<Rightarrow> int option \<Rightarrow> store \<Rightarrow> (error + unit) \<times> store" where
  "updateContactPrecedence e i precedence linkedID st =
     (if dbFails e (length (oplog st))
      then (Inl StorageError, st\<lparr>oplog := oplog st @ [UpdateContact i precedence linkedID]\<rparr>)
      else (Inr (),
            st\<lparr>rows := map (\<lambda>c. if ID c = i
                                then c\<lparr>LinkPrecedence := precedence, LinkedID := linkedID,
                                       UpdatedAt := now e\<rparr>
                                else c) (rows st),
               oplog := oplog st @ [UpdateContact i precedence linkedID]\<rparr>))"

fun reconcilePrimaryStatus ::
  "env \<Rightarrow> Contact list \<Rightarrow> int \<Rightarrow> store \<Rightarrow> (error + unit) \<times> store" where
  "reconcilePrimaryStatus e [] primaryID st = (Inr (), st)"
| "reconcilePrimaryStatus e (c # cs) primaryID st =
     (if ID c = primaryID then
        (if LinkPrecedence c \<noteq> ''primary'' then
           (case updateContactPrecedence e (ID c) ''primary'' None st of
              (Inl err, st') \<Rightarrow> (Inl err, st')
            | (Inr u, st') \<Rightarrow> reconcilePrimaryStatus e cs primaryID st')
         else reconcilePrimaryStatus e cs primaryID st)
      else
        (if LinkPrecedence c \<noteq> ''secondary'' \<or> LinkedID c = None
            \<or> LinkedID c \<noteq> Some primaryID then
           (case updateContactPrecedence e (ID c) ''secondary'' (Some primaryID) st of
              (Inl err, st') \<Rightarrow> (Inl err, st')
            | (Inr u, st') \<Rightarrow> reconcilePrimaryStatus e cs primaryID st')
         else reconcilePrimaryStatus e cs primaryID st))"

section \<open>Response projection\<close>

text \<open>
  The first loop of \<open>buildResponse\<close>: the email and phone of the record whose id is
  \<open>primaryID\<close> (left as they were where that record has none), and the ids of the other
  records, in the order of the rows.
\<close>

fun primaryDetails ::
  "int \<Rightarrow> Contact list \<Rightarrow> string \<times> string \<times> int list \<Rightarrow> string \<times> string \<times> int list" where
  "primaryDetails primaryID [] acc = acc"
| "primaryDetails primaryID (c # cs) (primaryEmail, primaryPhone, secondaryContactIDs) =
     (if ID c = primaryID then
        primaryDetails primaryID cs
          ((case Email c of None \<Rightarrow> primaryEmail | Some a \<Rightarrow> a),
           (case PhoneNumber c of None \<Rightarrow> primaryPhone | Some b \<Rightarrow> b),
           secondaryContactIDs)
      else
        primaryDetails primaryID cs
          (primaryEmail, primaryPhone, secondaryContactIDs @ [ID c]))"

text \<open>
  The second loop fills \<open>emailSet\<close> and \<open>phoneSet\<close>, maps used as sets: the values of
  a field that are neither empty nor the primary's, each once.
\<close>

definition otherValues :: "(Contact \<Rightarrow> string option) \<Rightarrow> string \<Rightarrow> Contact list \<Rightarrow> string list" where
  "otherValues field primaryValue allContacts =
     remdups (List.map_filter
       (\<lambda>c. case field c of
               None \<Rightarrow> None
             | Some v \<Rightarrow> if v \<noteq> [] \<and> v \<noteq> primaryValue then Some v else None)
       allContacts)"

definition buildResponse :: "env \<Rightarrow> int \<Rightarrow> store \<Rightarrow> (error + ContactResponse) \<times> store" where
  "buildResponse e primaryID st =
     (case getAllLinkedContacts e primaryID st of
        (Inl err, st') \<Rightarrow> (Inl err, st')
      | (Inr allContacts, st') \<Rightarrow>
          (case primaryDetails primaryID allContacts ([], [], []) of
             (primaryEmail, primaryPhone, secondaryContactIDs) \<Rightarrow>
               (Inr \<lparr>PrimaryContactID = primaryID,
                     Emails = (if primaryEmail \<noteq> [] then [primaryEmail] else [])
                                @ emailOrder e (otherValues Email primaryEmail allContacts),
                     PhoneNumbers = (if primaryPhone \<noteq> [] then [primaryPhone] else [])
                                @ phoneOrder e (otherValues PhoneNumber primaryPhone allContacts),
                     SecondaryContactIDs = secondaryContactIDs\<rparr>,
                st')))"

section \<open>Identify\<close>

text \<open>
  \<open>primaryContact.ID\<close> on a \<open>nil\<close> pointer would panic; \<open>findOldestContact\<close>
  returns \<open>nil\<close> only on an empty slice, which this branch excludes.
\<close>

definition Identify :: "env \<Rightarrow> IdentifyRequest \<Rightarrow> store \<Rightarrow> (error + ContactResponse) \<times> store" where
  "Identify e req st =
     (case findLinkedContacts e (email req) (phoneNumber req) st of
        (Inl err, st1) \<Rightarrow> (Inl err, st1)
      | (Inr linkedContacts, st1) \<Rightarrow>
          if length linkedContacts = 0 then
            (case createPrimaryContact e (email req) (phoneNumber req) st1 of
               (Inl err, st2) \<Rightarrow> (Inl err, st2)
             | (Inr primaryContact, st2) \<Rightarrow> buildResponse e (ID primaryContact) st2)
          else
            (case findOldestContact linkedContacts of
               (None, contacts) \<Rightarrow> (Inl NilDereference, st1)
             | (Some primaryContact, contacts) \<Rightarrow>
                 (case (if hasNewInformation contacts (email req) (phoneNumber req)
                        then (case createSecondaryContact e (email req) (phoneNumber req)
                                     (ID primaryContact) st1 of
                                (Inl err, st') \<Rightarrow> (Inl err, st')
                              | (Inr c, st') \<Rightarrow> (Inr (), st'))
                        else (Inr (), st1)) of
                    (Inl err, st2) \<Rightarrow> (Inl err, st2)
                  | (Inr u, st2) \<Rightarrow>
                      (case reconcilePrimaryStatus e contacts (ID primaryContact) st2 of
                         (Inl err, st3) \<Rightarrow> (Inl err, st3)
                       | (Inr u', st3) \<Rightarrow> buildResponse e (ID primaryContact) st3))))"

section \<open>The handler (handlers: IdentifyHandler.Handle)\<close>

text \<open>
  A request as the handler reads it: the HTTP method and the body, \<open>None\<close> where
  \<open>json.Decode\<close> fails. The answer is the status code with the error text or the
  encoded response.
\<close>

record httpRequest =
  httpMethod :: string
  body :: "IdentifyRequest option"

record httpResponse =
  statusCode :: nat
  reply :: "string + ContactResponse"

definition Handle :: "env \<Rightarrow> httpRequest \<Rightarrow> store \<Rightarrow> httpResponse \<times> store" where
  "Handle e r st =
     (if httpMethod r \<noteq> ''POST''
      then (\<lparr>statusCode = 405, reply = Inl ''Method not allowed''\<rparr>, st)
      else (case body r of
              None \<Rightarrow> (\<lparr>statusCode = 400, reply = Inl ''Invalid JSON''\<rparr>, st)
            | Some req \<Rightarrow>
                if (email req = None \<or> email req = Some [])
                   \<and> (phoneNumber req = None \<or> phoneNumber req = Some [])
                then (\<lparr>statusCode = 400,
                       reply = Inl ''Either email or phoneNumber must be provided''\<rparr>, st)
                else (case Identify e req st of
                        (Inl err, st') \<Rightarrow>
                          (\<lparr>statusCode = 500, reply = Inl ''Internal server error''\<rparr>, st')
                      | (Inr response, st') \<Rightarrow>
                          (\<lparr>statusCode = 200, reply = Inr response\<rparr>, st'))))"

text \<open>A run of calls, each in its own environment, stopping at the first that fails.\<close>

fun identifyAll :: "(env \<times> IdentifyRequest) list \<Rightarrow> store \<Rightarrow> (error + unit) \<times> store" where
  "identifyAll [] st = (Inr (), st)"
| "identifyAll ((e, req) # calls) st =
     (case Identify e req st of
        (Inl err, st') \<Rightarrow> (Inl err, st')
      | (Inr response, st') \<Rightarrow> identifyAll calls st')"

section \<open>Predicates and sample stores of the theorems\<close>

text \<open>
  The target state of the hierarchy normalization for a primary id: the record with that
  id has precedence primary, every other record has precedence secondary and is linked
  to that id.
\<close>

definition inTargetState :: "int \<Rightarrow> Contact \<Rightarrow> bool" where
  "inTargetState primaryID c =
     (if ID c = primaryID then LinkPrecedence c = ''primary''
      else LinkPrecedence c = ''secondary'' \<and> LinkedID c = Some primaryID)"

text \<open>Two records created at the same instant, and the environment of a call in which
  the \<open>range\<close> over \<open>contactMap\<close> yields the higher id first.\<close>

definition twinA :: Contact where
  "twinA = \<lparr>ID = 1, PhoneNumber = Some ''111'', Email = Some ''a@x.com'', LinkedID = None,
            LinkPrecedence = ''primary'', CreatedAt = 5, UpdatedAt = 5, DeletedAt = None\<rparr>"

definition twinB :: Contact where
  "twinB = \<lparr>ID = 2, PhoneNumber = Some ''222'', Email = Some ''b@x.com'', LinkedID = None,
            LinkPrecedence = ''primary'', CreatedAt = 5, UpdatedAt = 5, DeletedAt = None\<rparr>"

definition twinStore :: store where
  "twinStore = \<lparr>rows = [twinA, twinB], nextID = 3, oplog = []\<rparr>"

definition descendingEnv :: "int \<Rightarrow> env" where
  "descendingEnv t = (plainEnv t)\<lparr>contactOrder := rev\<rparr>"

text \<open>\<open>twinStore\<close> after the normalization of its two records under primary 1 at time 7.\<close>

definition twinStoreMerged :: store where
  "twinStoreMerged =
     \<lparr>rows = [twinA, twinB\<lparr>LinkPrecedence := ''secondary'', LinkedID := Some 1, UpdatedAt := 7\<rparr>],
      nextID = 3, oplog = [UpdateContact 2 ''secondary'' (Some 1)]\<rparr>"

text \<open>The rows a query can return: those that are not soft-deleted.\<close>

definition live :: "store \<Rightarrow> Contact set" where
  "live st = {c \<in> set (rows st). DeletedAt c = None}"

text \<open>
  What the schema keeps true of the table: \<open>id\<close> is a primary key, every id was assigned
  before the next one, and \<open>linked_id\<close> references the id of a row.
\<close>

definition store_ok :: "store \<Rightarrow> bool" where
  "store_ok st =
     (distinct (map ID (rows st))
      \<and> (\<forall>c\<in>set (rows st). ID c < nextID st)
      \<and> (\<forall>c\<in>set (rows st). \<forall>l. LinkedID c = Some l \<longrightarrow> l \<in> ID ` set (rows st)))"

text \<open>What a normalization pass does to a row: nothing but the link fields and \<open>UpdatedAt\<close>
  change, only rows whose id is in \<open>A\<close> change, and a changed row is linked to nothing or to
  the primary.\<close>

definition relinks :: "int set \<Rightarrow> int \<Rightarrow> (Contact \<Rightarrow> Contact) \<Rightarrow> bool" where
  "relinks A pid f =
     (\<forall>r. ID (f r) = ID r \<and> Email (f r) = Email r \<and> PhoneNumber (f r) = PhoneNumber r
          \<and> DeletedAt (f r) = DeletedAt r \<and> CreatedAt (f r) = CreatedAt r
          \<and> (ID r \<notin> A \<longrightarrow> f r = r)
          \<and> (f r = r \<or> LinkedID (f r) = None \<or> LinkedID (f r) = Some pid))"

text \<open>The group of a primary id as \<open>getAllLinkedContacts\<close> selects it, in row order.\<close>

definition groupOf :: "int \<Rightarrow> store \<Rightarrow> Contact list" where
  "groupOf primaryID st =
     filter (\<lambda>c. (ID c = primaryID \<or> LinkedID c = Some primaryID) \<and> DeletedAt c = None) (rows st)"

text \<open>
  An output sequence for one field of a group with primary \<open>p\<close>: the primary's own value
  first unless it is absent or empty, then the other non-empty values of the group's
  records, and no value twice.
\<close>

definition valuesFirst ::
  "(Contact \<Rightarrow> string option) \<Rightarrow> Contact \<Rightarrow> Contact list \<Rightarrow> string list \<Rightarrow> bool" where
  "valuesFirst field p grp out =
     (\<exists>others. out = (case field p of None \<Rightarrow> [] | Some a \<Rightarrow> if a \<noteq> [] then [a] else []) @ others
        \<and> distinct out
        \<and> set others = {a. a \<noteq> [] \<and> field p \<noteq> Some a \<and> (\<exists>c\<in>set grp. field c = Some a)})"

text \<open>
  Sample stores, each as a run of Identify calls from the empty store leaves it (the log
  of calls apart). \<open>linkedStore\<close>: a primary and one secondary that shares its phone
  number. \<open>groupedStore\<close>: an older primary, and a newer primary with a secondary of its
  own. \<open>mergeCalls\<close>: the calls that build \<open>groupedStore\<close>, then the call that names the
  older primary's email and the newer primary's phone number.
\<close>

definition linkedStore :: store where
  "linkedStore =
     \<lparr>rows = [\<lparr>ID = 1, PhoneNumber = Some ''111'', Email = Some ''a@x.com'', LinkedID = None,
               LinkPrecedence = ''primary'', CreatedAt = 1, UpdatedAt = 1, DeletedAt = None\<rparr>,
              \<lparr>ID = 2, PhoneNumber = Some ''111'', Email = Some ''b@x.com'', LinkedID = Some 1,
               LinkPrecedence = ''secondary'', CreatedAt = 2, UpdatedAt = 2, DeletedAt = None\<rparr>],
      nextID = 3, oplog = []\<rparr>"

definition groupedStore :: store where
  "groupedStore =
     \<lparr>rows = [\<lparr>ID = 1, PhoneNumber = Some ''111'', Email = Some ''a@x.com'', LinkedID = None,
               LinkPrecedence = ''primary'', CreatedAt = 1, UpdatedAt = 1, DeletedAt = None\<rparr>,
              \<lparr>ID = 2, PhoneNumber = Some ''222'', Email = Some ''b@x.com'', LinkedID = None,
               LinkPrecedence = ''primary'', CreatedAt = 2, UpdatedAt = 2, DeletedAt = None\<rparr>,
              \<lparr>ID = 3, PhoneNumber = Some ''333'', Email = Some ''b@x.com'', LinkedID = Some 2,
               LinkPrecedence = ''secondary'', CreatedAt = 3, UpdatedAt = 3, DeletedAt = None\<rparr>],
      nextID = 4, oplog = []\<rparr>"

definition mergeCalls :: "(env \<times> IdentifyRequest) list" where
  "mergeCalls =
     [(plainEnv 1, \<lparr>email = Some ''a@x.com'', phoneNumber = Some ''111''\<rparr>),
      (plainEnv 2, \<lparr>email = Some ''b@x.com'', phoneNumber = Some ''222''\<rparr>),
      (plainEnv 3, \<lparr>email = Some ''b@x.com'', phoneNumber = Some ''333''\<rparr>),
      (plainEnv 4, \<lparr>email = Some ''a@x.com'', phoneNumber = Some ''222''\<rparr>)]"

text \<open>
  The records an Identify request matches by itself, and the touched set that discovery
  builds from them: the matched records, and the live records that share a linked id with
  a matched record.
\<close>

definition matched :: "string option \<Rightarrow> string option \<Rightarrow> store \<Rightarrow> Contact set" where
  "matched em ph st =
     {c \<in> live st. (\<exists>a. em = Some a \<and> a \<noteq> [] \<and> Email c = Some a)
                  \<or> (\<exists>b. ph = Some b \<and> b \<noteq> [] \<and> PhoneNumber c = Some b)}"

definition touched :: "string option \<Rightarrow> string option \<Rightarrow> store \<Rightarrow> Contact set" where
  "touched em ph st =
     matched em ph st
     \<union> {c \<in> live st. \<exists>m\<in>matched em ph st. \<exists>l. LinkedID m = Some l \<and> LinkedID c = Some l}"

section \<open>Theorems\<close>

lemma sortSlice_sorted: "sorted (map CreatedAt (sortSlice cs))"
  by (simp add: sortSlice_def)

lemma sortSlice_set: "set (sortSlice cs) = set cs"
  by (simp add: sortSlice_def)

lemma findOldestContact_Some:
  assumes "cs \<noteq> []"
  shows "\<exists>c rest. findOldestContact cs = (Some c, c # rest) \<and> c # rest = sortSlice cs"
proof -
  have "sortSlice cs \<noteq> []"
    using assms sortSlice_set[of cs] by auto
  then obtain c rest where "sortSlice cs = c # rest"
    by (cases "sortSlice cs") auto
  then show ?thesis
    using assms by (simp add: findOldestContact_def)
qed

subsection \<open>C4: the record chosen as primary\<close>

text \<open>
  C4, as the code has it: on a non-empty touched set \<open>findOldestContact\<close> returns a
  record of the set whose \<open>CreatedAt\<close> is the earliest of the set.
\<close>

theorem findOldestContact_earliest:
  assumes "cs \<noteq> []"
  shows "\<exists>c sl. findOldestContact cs = (Some c, sl) \<and> c \<in> set cs
           \<and> (\<forall>d\<in>set cs. CreatedAt c \<le> CreatedAt d)"
proof -
  obtain c rest where f: "findOldestContact cs = (Some c, c # rest)"
    and s: "c # rest = sortSlice cs"
    using findOldestContact_Some[OF assms] by blast
  have m: "c \<in> set cs"
    using sortSlice_set[of cs] s by (metis list.set_intros(1))
  have "sorted (map CreatedAt (c # rest))"
    using sortSlice_sorted[of cs] s by simp
  then have "\<forall>d\<in>set (c # rest). CreatedAt c \<le> CreatedAt d"
    by auto
  then have "\<forall>d\<in>set cs. CreatedAt c \<le> CreatedAt d"
    using sortSlice_set[of cs] s by metis
  with f m show ?thesis by blast
qed

theorem findOldestContact_earliest_witness:
  "\<exists>c sl. findOldestContact [twinB\<lparr>CreatedAt := 9\<rparr>, twinA] = (Some c, sl)
     \<and> CreatedAt c \<le> 9 \<and> CreatedAt c \<le> 5"
  using findOldestContact_earliest[of "[twinB\<lparr>CreatedAt := 9\<rparr>, twinA]"]
  by (auto simp: twinA_def twinB_def)

text \<open>
  C4 as stated fails on a tie: records 1 and 2 share the earliest \<open>CreatedAt\<close>, the
  slice holds record 2 first, and record 2 is chosen; the call that merges the two
  answers with primary 2 and demotes record 1.
\<close>

theorem findOldestContact_tie_counterexample:
  "fst (findOldestContact [twinB, twinA]) = Some twinB
   \<and> CreatedAt twinA = CreatedAt twinB \<and> ID twinA < ID twinB
   \<and> fst (Identify (descendingEnv 6) \<lparr>email = Some ''a@x.com'', phoneNumber = Some ''222''\<rparr>
          twinStore) =
       Inr \<lparr>PrimaryContactID = 2, Emails = [''b@x.com'', ''a@x.com''],
            PhoneNumbers = [''222'', ''111''], SecondaryContactIDs = [1]\<rparr>"
  by code_simp

subsection \<open>C8: a request with neither email nor phone number\<close>

text \<open>
  C8: a request whose body decodes to email and phoneNumber both absent or empty is
  rejected and the store, with its log of calls, is as it was: no store call is made. A
  \<open>POST\<close> is answered with status 400 and the text of the validation; any other method
  was refused with 405 before the body was read.
\<close>

theorem Handle_rejects_empty:
  assumes "body r = Some req"
    and "email req = None \<or> email req = Some []"
    and "phoneNumber req = None \<or> phoneNumber req = Some []"
  shows "snd (Handle e r st) = st
       \<and> fst (Handle e r st) =
           (if httpMethod r = ''POST''
            then \<lparr>statusCode = 400, reply = Inl ''Either email or phoneNumber must be provided''\<rparr>
            else \<lparr>statusCode = 405, reply = Inl ''Method not allowed''\<rparr>)"
  using assms by (simp add: Handle_def)

theorem Handle_rejects_empty_witness:
  "Handle (plainEnv 0)
     \<lparr>httpMethod = ''POST'', body = Some \<lparr>email = Some [], phoneNumber = None\<rparr>\<rparr> emptyStore =
   (\<lparr>statusCode = 400, reply = Inl ''Either email or phoneNumber must be provided''\<rparr>,
    emptyStore)"
  using Handle_rejects_empty[of
      "\<lparr>httpMethod = ''POST'', body = Some \<lparr>email = Some [], phoneNumber = None\<rparr>\<rparr>"
      "\<lparr>email = Some [], phoneNumber = None\<rparr>" "plainEnv 0" emptyStore]
  by (simp add: prod_eq_iff)

subsection \<open>C7: normalization is idempotent on writes\<close>

lemma reconcile_skips:
  "\<forall>c\<in>set cs. inTargetState pid c \<Longrightarrow> reconcilePrimaryStatus e cs pid st = (Inr (), st)"
  by (induction cs) (auto simp: inTargetState_def split: if_splits)

lemma update_Inr:
  assumes "updateContactPrecedence e i p l st = (Inr u, st')"
  shows "rows st' = map (\<lambda>c. if ID c = i then c\<lparr>LinkPrecedence := p, LinkedID := l, UpdatedAt := now e\<rparr> else c) (rows st)"
    and "nextID st' = nextID st"
  using assms by (auto simp: updateContactPrecedence_def split: if_splits)

lemma reconcile_step:
  assumes "reconcilePrimaryStatus e (c # cs) pid st = (Inr u, st1)"
  shows "(inTargetState pid c \<and> reconcilePrimaryStatus e cs pid st = (Inr u, st1))
       \<or> (\<exists>st'. updateContactPrecedence e (ID c) (if ID c = pid then ''primary'' else ''secondary'')
                   (if ID c = pid then None else Some pid) st = (Inr (), st')
               \<and> reconcilePrimaryStatus e cs pid st' = (Inr u, st1))"
  using assms
  by (auto simp: inTargetState_def split: if_splits prod.splits sum.splits)

lemma update_row_cases:
  assumes "updateContactPrecedence e i (if i = pid then ''primary'' else ''secondary'')
             (if i = pid then None else Some pid) st = (Inr u, st')"
    and "r' \<in> set (rows st')"
  shows "(r' \<in> set (rows st) \<and> ID r' \<noteq> i) \<or> (ID r' = i \<and> inTargetState pid r')"
  using assms by (auto simp: update_Inr(1)[OF assms(1)] inTargetState_def)

lemma reconcile_rows:
  "reconcilePrimaryStatus e cs pid st = (Inr u, st1) \<Longrightarrow> r \<in> set (rows st1)
     \<Longrightarrow> r \<in> set (rows st) \<or> inTargetState pid r"
proof (induction cs arbitrary: st)
  case Nil
  then show ?case by simp
next
  case (Cons c cs)
  from reconcile_step[OF Cons.prems(1)] show ?case
  proof (elim disjE conjE exE)
    assume "reconcilePrimaryStatus e cs pid st = (Inr u, st1)"
    then show ?thesis using Cons.IH Cons.prems(2) by blast
  next
    fix st'
    assume up: "updateContactPrecedence e (ID c) (if ID c = pid then ''primary'' else ''secondary'')
                   (if ID c = pid then None else Some pid) st = (Inr (), st')"
      and rest: "reconcilePrimaryStatus e cs pid st' = (Inr u, st1)"
    from Cons.IH[OF rest Cons.prems(2)] have "r \<in> set (rows st') \<or> inTargetState pid r" .
    then show ?thesis using update_row_cases[OF up] by blast
  qed
qed

lemma reconcile_reaches_target:
  "\<forall>c\<in>set cs. \<forall>r\<in>set (rows st). ID r = ID c \<longrightarrow> r = c \<or> inTargetState pid r
   \<Longrightarrow> reconcilePrimaryStatus e cs pid st = (Inr u, st1)
   \<Longrightarrow> \<forall>c\<in>set cs. \<forall>r\<in>set (rows st1). ID r = ID c \<longrightarrow> inTargetState pid r"
proof (induction cs arbitrary: st)
  case Nil
  then show ?case by simp
next
  case (Cons c cs)
  from reconcile_step[OF Cons.prems(2)] show ?case
  proof (elim disjE conjE exE)
    assume t: "inTargetState pid c" and rest: "reconcilePrimaryStatus e cs pid st = (Inr u, st1)"
    have ih: "\<forall>d\<in>set cs. \<forall>r\<in>set (rows st1). ID r = ID d \<longrightarrow> inTargetState pid r"
      using Cons.IH[OF _ rest] Cons.prems(1) by simp
    have "\<forall>r\<in>set (rows st1). ID r = ID c \<longrightarrow> inTargetState pid r"
      using reconcile_rows[OF rest] Cons.prems(1) t by (metis list.set_intros(1))
    with ih show ?thesis by simp
  next
    fix st'
    assume up: "updateContactPrecedence e (ID c) (if ID c = pid then ''primary'' else ''secondary'')
                   (if ID c = pid then None else Some pid) st = (Inr (), st')"
      and rest: "reconcilePrimaryStatus e cs pid st' = (Inr u, st1)"
    have pre: "\<forall>d\<in>set cs. \<forall>r\<in>set (rows st'). ID r = ID d \<longrightarrow> r = d \<or> inTargetState pid r"
      using update_row_cases[OF up] Cons.prems(1) by (metis list.set_intros(2))
    have ih: "\<forall>d\<in>set cs. \<forall>r\<in>set (rows st1). ID r = ID d \<longrightarrow> inTargetState pid r"
      using Cons.IH[OF pre rest] .
    have "\<forall>r\<in>set (rows st1). ID r = ID c \<longrightarrow> inTargetState pid r"
      using reconcile_rows[OF rest] update_row_cases[OF up] by blast
    with ih show ?thesis by simp
  qed
qed

lemma distinct_ID_eq:
  "distinct (map ID xs) \<Longrightarrow> a \<in> set xs \<Longrightarrow> b \<in> set xs \<Longrightarrow> ID a = ID b \<Longrightarrow> a = b"
  by (meson distinct_map inj_onD)

text \<open>
  C7: after one normalization of a touched set read from the store, a second
  normalization under the same primary id, of records read from the resulting store and
  belonging to the same touched set, finds every record in its target state and makes
  no store call: the store, with its log of calls, is returned as it was.
\<close>

theorem reconcilePrimaryStatus_idempotent:
  assumes "distinct (map ID (rows st))" and "set cs \<subseteq> set (rows st)"
    and "reconcilePrimaryStatus e cs primaryID st = (Inr u, st1)"
    and "set cs1 \<subseteq> set (rows st1)" and "ID ` set cs1 \<subseteq> ID ` set cs"
  shows "(\<forall>c\<in>set cs1. inTargetState primaryID c)
       \<and> reconcilePrimaryStatus e' cs1 primaryID st1 = (Inr (), st1)"
proof -
  have "\<forall>c\<in>set cs. \<forall>r\<in>set (rows st). ID r = ID c \<longrightarrow> r = c \<or> inTargetState primaryID r"
    using assms(1,2) distinct_ID_eq by blast
  from reconcile_reaches_target[OF this assms(3)]
  have "\<forall>c\<in>set cs. \<forall>r\<in>set (rows st1). ID r = ID c \<longrightarrow> inTargetState primaryID r" .
  then have t: "\<forall>c\<in>set cs1. inTargetState primaryID c"
    using assms(4,5) by blast
  then show ?thesis using reconcile_skips by blast
qed

theorem reconcilePrimaryStatus_idempotent_witness:
  "reconcilePrimaryStatus (plainEnv 7) [twinA, twinB] 1 twinStore = (Inr (), twinStoreMerged)
   \<and> inTargetState 1 (rows twinStoreMerged ! 1)
   \<and> reconcilePrimaryStatus (descendingEnv 8) (rows twinStoreMerged) 1 twinStoreMerged
       = (Inr (), twinStoreMerged)"
proof -
  have d: "distinct (map ID (rows twinStore))"
    by (simp add: twinStore_def twinA_def twinB_def)
  have s: "set [twinA, twinB] \<subseteq> set (rows twinStore)"
    by (simp add: twinStore_def)
  have r: "reconcilePrimaryStatus (plainEnv 7) [twinA, twinB] 1 twinStore
             = (Inr (), twinStoreMerged)"
    by code_simp
  have i: "ID ` set (rows twinStoreMerged) \<subseteq> ID ` set [twinA, twinB]"
    by (simp add: twinStoreMerged_def)
  from reconcilePrimaryStatus_idempotent[OF d s r subset_refl i, of "descendingEnv 8"] r
  show ?thesis by (simp add: twinStoreMerged_def)
qed

subsection \<open>Queries and discovery leave the rows as they are\<close>

lemma env_ok_set:
  assumes "env_ok e"
  shows "set (rowOrder e xs) = set xs" "set (linkedIDOrder e is) = set is"
    "set (contactOrder e cs) = set cs" "set (emailOrder e ss) = set ss"
    "set (phoneOrder e ss) = set ss"
  using assms unfolding env_ok_def by (metis mset_eq_setD)+

lemma env_ok_distinct:
  assumes "env_ok e"
  shows "distinct (emailOrder e ss) = distinct ss" "distinct (phoneOrder e ss) = distinct ss"
  using assms unfolding env_ok_def by (metis mset_eq_imp_distinct_iff)+

lemma env_ok_rows:
  assumes "env_ok e"
  shows "mset (rowOrder e xs) = mset xs"
  using assms unfolding env_ok_def by simp

lemma env_ok_Nil:
  assumes "env_ok e"
  shows "rowOrder e [] = []" "contactOrder e [] = []" "emailOrder e [] = []" "phoneOrder e [] = []"
  using env_ok_set[OF assms] by (metis set_empty)+

lemma env_ok_single:
  assumes "env_ok e"
  shows "rowOrder e [c] = [c]"
proof -
  have "mset (rowOrder e [c]) = {#c#}"
    using assms unfolding env_ok_def by simp
  then show ?thesis by simp
qed

lemma live_cong: "rows st' = rows st \<Longrightarrow> live st' = live st"
  by (simp add: live_def)

lemma bindE:
  assumes "(case p of (Inl err, s) \<Rightarrow> (Inl err, s) | (Inr x, s) \<Rightarrow> g x s) = (Inr y, s')"
  obtains x s where "p = (Inr x, s)" and "g x s = (Inr y, s')"
proof (cases p)
  case (Pair r s)
  with assms that show ?thesis by (cases r) auto
qed

lemma queryContacts_Inr:
  assumes "queryContacts e q wh st = (Inr cs, st')" and "env_ok e"
  shows "set cs = {c \<in> set (rows st). wh c}" "mset (map ID cs) = mset (map ID (filter wh (rows st)))"
    "rows st' = rows st" "nextID st' = nextID st"
  using assms(1) env_ok_set(1)[OF assms(2)]
  by (auto simp: queryContacts_def env_ok_rows[OF assms(2)] split: if_splits)

lemma query_live:
  assumes "env_ok e"
  shows "queryContactsByEmail e a st = (Inr cs, st') \<Longrightarrow>
           set cs \<subseteq> live st \<and> rows st' = rows st \<and> nextID st' = nextID st"
    and "queryContactsByPhoneNumber e a st = (Inr cs, st') \<Longrightarrow>
           set cs \<subseteq> live st \<and> rows st' = rows st \<and> nextID st' = nextID st"
    and "queryContactsByLinkedID e l st = (Inr cs, st') \<Longrightarrow>
           set cs \<subseteq> live st \<and> rows st' = rows st \<and> nextID st' = nextID st"
proof -
  show "queryContactsByEmail e a st = (Inr cs, st') \<Longrightarrow>
           set cs \<subseteq> live st \<and> rows st' = rows st \<and> nextID st' = nextID st"
    unfolding queryContactsByEmail_def live_def
    by (frule queryContacts_Inr(1)[OF _ assms], frule queryContacts_Inr(3)[OF _ assms],
        frule queryContacts_Inr(4)[OF _ assms]) auto
  show "queryContactsByPhoneNumber e a st = (Inr cs, st') \<Longrightarrow>
           set cs \<subseteq> live st \<and> rows st' = rows st \<and> nextID st' = nextID st"
    unfolding queryContactsByPhoneNumber_def live_def
    by (frule queryContacts_Inr(1)[OF _ assms], frule queryContacts_Inr(3)[OF _ assms],
        frule queryContacts_Inr(4)[OF _ assms]) auto
  show "queryContactsByLinkedID e l st = (Inr cs, st') \<Longrightarrow>
           set cs \<subseteq> live st \<and> rows st' = rows st \<and> nextID st' = nextID st"
    unfolding queryContactsByLinkedID_def live_def
    by (frule queryContacts_Inr(1)[OF _ assms], frule queryContacts_Inr(3)[OF _ assms],
        frule queryContacts_Inr(4)[OF _ assms]) auto
qed

lemma putAll_values: "snd ` set (putAll m cs) \<subseteq> snd ` set m \<union> set cs"
proof (induction cs arbitrary: m)
  case Nil
  then show ?case by simp
next
  case (Cons c cs)
  have "snd ` set (AList.update (ID c) c m) \<subseteq> insert c (snd ` set m)"
    by (induction m) auto
  with Cons.IH[of "AList.update (ID c) c m"] show ?case by auto
qed

lemma putAll_within:
  assumes "snd ` set m \<subseteq> D" and "set cs \<subseteq> D"
  shows "snd ` set (putAll m cs) \<subseteq> D"
  using assms putAll_values[of m cs] by blast

lemma queryAllLinked_Cons_Inr:
  assumes "queryAllLinked e (l # ls) m st = (Inr m', st')"
  shows "\<exists>cs st1. queryContactsByLinkedID e l st = (Inr cs, st1)
           \<and> queryAllLinked e ls (putAll m cs) st1 = (Inr m', st')"
  using assms
  apply (simp only: queryAllLinked.simps)
  apply (erule bindE)
  apply blast
  done

lemma queryAllLinked_Inr:
  "queryAllLinked e ls m st = (Inr m', st') \<Longrightarrow> env_ok e \<Longrightarrow> snd ` set m \<subseteq> live st \<Longrightarrow>
     rows st' = rows st \<and> nextID st' = nextID st \<and> snd ` set m' \<subseteq> live st"
proof (induction ls arbitrary: m st)
  case Nil
  then show ?case by simp
next
  case (Cons l ls)
  from queryAllLinked_Cons_Inr[OF Cons.prems(1)] obtain cs st1 where
    q: "queryContactsByLinkedID e l st = (Inr cs, st1)"
    and r: "queryAllLinked e ls (putAll m cs) st1 = (Inr m', st')"
    by blast
  from query_live(3)[OF Cons.prems(2) q]
  have a: "set cs \<subseteq> live st" "rows st1 = rows st" "nextID st1 = nextID st" by simp_all
  have l: "live st1 = live st" using a(2) by (rule live_cong)
  have "snd ` set (putAll m cs) \<subseteq> live st1"
    unfolding l using Cons.prems(3) a(1) by (rule putAll_within)
  from Cons.IH[OF r Cons.prems(2) this] a(2,3) l show ?case by simp
qed

lemma addByEmail_Inr:
  assumes "addByEmail e em m st = (Inr m', st')" and "env_ok e" and "snd ` set m \<subseteq> live st"
  shows "rows st' = rows st \<and> nextID st' = nextID st \<and> snd ` set m' \<subseteq> live st"
proof (cases "\<exists>x. em = Some x \<and> x \<noteq> []")
  case True
  then obtain x where x: "em = Some x" "x \<noteq> []" by blast
  with assms(1) have "(case queryContactsByEmail e x st of
             (Inl err, s) \<Rightarrow> (Inl err, s)
           | (Inr contacts, s) \<Rightarrow> (Inr (putAll m contacts), s)) = (Inr m', st')"
    by (simp add: addByEmail_def)
  then obtain contacts s where q: "queryContactsByEmail e x st = (Inr contacts, s)"
    and m: "(Inr (putAll m contacts), s) = (Inr m', st')"
    by (rule bindE) blast
  from m have m': "m' = putAll m contacts" and s: "s = st'" by simp_all
  from query_live(1)[OF assms(2) q[unfolded s]]
  have a: "set contacts \<subseteq> live st" "rows st' = rows st" "nextID st' = nextID st" by simp_all
  have "snd ` set m' \<subseteq> live st"
    unfolding m' using assms(3) a(1) by (rule putAll_within)
  with a show ?thesis by simp
next
  case False
  then have "addByEmail e em m st = (Inr m, st)"
    by (cases em) (auto simp: addByEmail_def)
  with assms(1,3) show ?thesis by simp
qed

lemma addByPhoneNumber_Inr:
  assumes "addByPhoneNumber e ph m st = (Inr m', st')" and "env_ok e" and "snd ` set m \<subseteq> live st"
  shows "rows st' = rows st \<and> nextID st' = nextID st \<and> snd ` set m' \<subseteq> live st"
proof (cases "\<exists>x. ph = Some x \<and> x \<noteq> []")
  case True
  then obtain x where x: "ph = Some x" "x \<noteq> []" by blast
  with assms(1) have "(case queryContactsByPhoneNumber e x st of
             (Inl err, s) \<Rightarrow> (Inl err, s)
           | (Inr contacts, s) \<Rightarrow> (Inr (putAll m contacts), s)) = (Inr m', st')"
    by (simp add: addByPhoneNumber_def)
  then obtain contacts s where q: "queryContactsByPhoneNumber e x st = (Inr contacts, s)"
    and m: "(Inr (putAll m contacts), s) = (Inr m', st')"
    by (rule bindE) blast
  from m have m': "m' = putAll m contacts" and s: "s = st'" by simp_all
  from query_live(2)[OF assms(2) q[unfolded s]]
  have a: "set contacts \<subseteq> live st" "rows st' = rows st" "nextID st' = nextID st" by simp_all
  have "snd ` set m' \<subseteq> live st"
    unfolding m' using assms(3) a(1) by (rule putAll_within)
  with a show ?thesis by simp
next
  case False
  then have "addByPhoneNumber e ph m st = (Inr m, st)"
    by (cases ph) (auto simp: addByPhoneNumber_def)
  with assms(1,3) show ?thesis by simp
qed

lemma findLinkedContacts_InrD:
  assumes "findLinkedContacts e em ph st = (Inr cs, st3)"
  shows "\<exists>m1 st1 m2 st2 m3. addByEmail e em [] st = (Inr m1, st1)
    \<and> addByPhoneNumber e ph m1 st1 = (Inr m2, st2)
    \<and> queryAllLinked e (linkedIDOrder e (allLinkedIDs m2)) m2 st2 = (Inr m3, st3)
    \<and> cs = contactOrder e (map snd m3)"
  using assms
  apply (simp only: findLinkedContacts_def)
  apply (erule bindE)
  apply (erule bindE)
  apply (erule bindE)
  apply simp
  done

lemma findLinkedContacts_Inr:
  assumes "findLinkedContacts e em ph st = (Inr cs, st3)" and "env_ok e"
  shows "rows st3 = rows st" "nextID st3 = nextID st" "set cs \<subseteq> live st"
proof -
  from findLinkedContacts_InrD[OF assms(1)] obtain m1 st1 m2 st2 m3
    where a: "addByEmail e em [] st = (Inr m1, st1)"
    and b: "addByPhoneNumber e ph m1 st1 = (Inr m2, st2)"
    and c: "queryAllLinked e (linkedIDOrder e (allLinkedIDs m2)) m2 st2 = (Inr m3, st3)"
    and cs: "cs = contactOrder e (map snd m3)"
    by blast
  from addByEmail_Inr[OF a assms(2)]
  have a': "rows st1 = rows st" "nextID st1 = nextID st" "snd ` set m1 \<subseteq> live st"
    by simp_all
  have l1: "live st1 = live st" using a'(1) by (rule live_cong)
  from addByPhoneNumber_Inr[OF b assms(2)] a' l1
  have b': "rows st2 = rows st" "nextID st2 = nextID st" "snd ` set m2 \<subseteq> live st"
    by simp_all
  have l2: "live st2 = live st" using b'(1) by (rule live_cong)
  from queryAllLinked_Inr[OF c assms(2)] b' l2
  have c': "rows st3 = rows st" "nextID st3 = nextID st" "snd ` set m3 \<subseteq> live st"
    by simp_all
  have "set cs = snd ` set m3"
    using cs env_ok_set(3)[OF assms(2)] by simp
  with c' show "rows st3 = rows st" "nextID st3 = nextID st" "set cs \<subseteq> live st"
    by simp_all
qed

subsection \<open>What the writes change\<close>

lemma relinks_id: "relinks {} pid (\<lambda>r. r)"
  by (simp add: relinks_def)

lemma relinks_comp:
  assumes "relinks A pid f" and "relinks B pid g"
  shows "relinks (A \<union> B) pid (g \<circ> f)"
  unfolding relinks_def
proof (intro allI)
  fix r
  from assms(1) have f: "ID (f r) = ID r" "Email (f r) = Email r" "PhoneNumber (f r) = PhoneNumber r"
    "DeletedAt (f r) = DeletedAt r" "CreatedAt (f r) = CreatedAt r" "ID r \<notin> A \<longrightarrow> f r = r"
    "f r = r \<or> LinkedID (f r) = None \<or> LinkedID (f r) = Some pid"
    unfolding relinks_def by blast+
  from assms(2) have g: "ID (g (f r)) = ID (f r)" "Email (g (f r)) = Email (f r)"
    "PhoneNumber (g (f r)) = PhoneNumber (f r)"
    "DeletedAt (g (f r)) = DeletedAt (f r)" "CreatedAt (g (f r)) = CreatedAt (f r)"
    "ID (f r) \<notin> B \<longrightarrow> g (f r) = f r"
    "g (f r) = f r \<or> LinkedID (g (f r)) = None \<or> LinkedID (g (f r)) = Some pid"
    unfolding relinks_def by blast+
  show "ID ((g \<circ> f) r) = ID r \<and> Email ((g \<circ> f) r) = Email r
        \<and> PhoneNumber ((g \<circ> f) r) = PhoneNumber r
        \<and> DeletedAt ((g \<circ> f) r) = DeletedAt r \<and> CreatedAt ((g \<circ> f) r) = CreatedAt r
        \<and> (ID r \<notin> A \<union> B \<longrightarrow> (g \<circ> f) r = r)
        \<and> ((g \<circ> f) r = r \<or> LinkedID ((g \<circ> f) r) = None \<or> LinkedID ((g \<circ> f) r) = Some pid)"
    using f g by (auto simp: comp_def)
qed

lemma relinks_update:
  assumes "l = None \<or> l = Some pid"
  shows "relinks {i} pid
           (\<lambda>c. if ID c = i then c\<lparr>LinkPrecedence := p, LinkedID := l, UpdatedAt := t\<rparr> else c)"
  using assms by (auto simp: relinks_def)

lemma relinks_mono: "relinks A pid f \<Longrightarrow> A \<subseteq> B \<Longrightarrow> relinks B pid f"
  unfolding relinks_def by blast

lemma reconcile_relinks:
  "reconcilePrimaryStatus e cs pid st = (Inr u, st1) \<Longrightarrow>
     \<exists>f. relinks (ID ` set cs) pid f \<and> rows st1 = map f (rows st) \<and> nextID st1 = nextID st"
proof (induction cs arbitrary: st)
  case Nil
  then have "rows st1 = map (\<lambda>r. r) (rows st)" "nextID st1 = nextID st" by simp_all
  with relinks_id[of pid] show ?case by (intro exI[of _ "\<lambda>r. r"]) simp
next
  case (Cons c cs)
  from reconcile_step[OF Cons.prems] show ?case
  proof (elim disjE conjE exE)
    assume "reconcilePrimaryStatus e cs pid st = (Inr u, st1)"
    from Cons.IH[OF this] obtain f where
      f: "relinks (ID ` set cs) pid f" "rows st1 = map f (rows st)" "nextID st1 = nextID st"
      by blast
    have "relinks (ID ` set (c # cs)) pid f"
      using f(1) by (rule relinks_mono) auto
    with f(2,3) show ?thesis by blast
  next
    fix st'
    assume up: "updateContactPrecedence e (ID c) (if ID c = pid then ''primary'' else ''secondary'')
                   (if ID c = pid then None else Some pid) st = (Inr (), st')"
      and rest: "reconcilePrimaryStatus e cs pid st' = (Inr u, st1)"
    define g :: "Contact \<Rightarrow> Contact" where "g = (\<lambda>r. if ID r = ID c
        then r\<lparr>LinkPrecedence := (if ID c = pid then ''primary'' else ''secondary''),
               LinkedID := (if ID c = pid then None else Some pid), UpdatedAt := now e\<rparr> else r)"
    have g: "relinks {ID c} pid g"
      unfolding g_def by (rule relinks_update) simp
    have rg: "rows st' = map g (rows st)" "nextID st' = nextID st"
      using update_Inr[OF up] unfolding g_def by simp_all
    from Cons.IH[OF rest] obtain f where
      f: "relinks (ID ` set cs) pid f" "rows st1 = map f (rows st')" "nextID st1 = nextID st'"
      by blast
    have "relinks ({ID c} \<union> ID ` set cs) pid (f \<circ> g)"
      using g f(1) by (rule relinks_comp)
    then have "relinks (ID ` set (c # cs)) pid (f \<circ> g)" by simp
    moreover have "rows st1 = map (f \<circ> g) (rows st)" using f(2) rg(1) by simp
    moreover have "nextID st1 = nextID st" using f(3) rg(2) by simp
    ultimately show ?thesis by blast
  qed
qed

lemma createPrimaryContact_Inr:
  assumes "createPrimaryContact e em ph st = (Inr c, st')"
  shows "c = \<lparr>ID = nextID st, PhoneNumber = ph, Email = em, LinkedID = None,
              LinkPrecedence = ''primary'', CreatedAt = now e, UpdatedAt = now e,
              DeletedAt = None\<rparr>"
    and "rows st' = rows st @ [c]" and "nextID st' = nextID st + 1"
  using assms by (auto simp: createPrimaryContact_def Let_def split: if_splits)

lemma createSecondaryContact_Inr:
  assumes "createSecondaryContact e em ph l st = (Inr c, st')"
  shows "c = \<lparr>ID = nextID st, PhoneNumber = ph, Email = em, LinkedID = Some l,
              LinkPrecedence = ''secondary'', CreatedAt = now e, UpdatedAt = now e,
              DeletedAt = None\<rparr>"
    and "rows st' = rows st @ [c]" and "nextID st' = nextID st + 1"
  using assms by (auto simp: createSecondaryContact_def Let_def split: if_splits)

subsection \<open>The stages of a successful Identify\<close>

lemma Identify_InrD:
  assumes "Identify e req st = (Inr resp, st')"
  shows "\<exists>cs st1. findLinkedContacts e (email req) (phoneNumber req) st = (Inr cs, st1) \<and>
    (if cs = [] then
       (\<exists>c st2. createPrimaryContact e (email req) (phoneNumber req) st1 = (Inr c, st2)
          \<and> buildResponse e (ID c) st2 = (Inr resp, st'))
     else
       (\<exists>p sl st2 st3. findOldestContact cs = (Some p, sl)
          \<and> (if hasNewInformation sl (email req) (phoneNumber req)
              then (\<exists>c. createSecondaryContact e (email req) (phoneNumber req) (ID p) st1
                          = (Inr c, st2))
              else st2 = st1)
          \<and> reconcilePrimaryStatus e sl (ID p) st2 = (Inr (), st3)
          \<and> buildResponse e (ID p) st3 = (Inr resp, st')))"
proof -
  from assms obtain cs st1 where
    f: "findLinkedContacts e (email req) (phoneNumber req) st = (Inr cs, st1)"
    and r: "(if length cs = 0 then
            (case createPrimaryContact e (email req) (phoneNumber req) st1 of
               (Inl err, st2) \<Rightarrow> (Inl err, st2)
             | (Inr primaryContact, st2) \<Rightarrow> buildResponse e (ID primaryContact) st2)
          else
            (case findOldestContact cs of
               (None, contacts) \<Rightarrow> (Inl NilDereference, st1)
             | (Some primaryContact, contacts) \<Rightarrow>
                 (case (if hasNewInformation contacts (email req) (phoneNumber req)
                        then (case createSecondaryContact e (email req) (phoneNumber req)
                                     (ID primaryContact) st1 of
                                (Inl err, st') \<Rightarrow> (Inl err, st')
                              | (Inr c, st') \<Rightarrow> (Inr (), st'))
                        else (Inr (), st1)) of
                    (Inl err, st2) \<Rightarrow> (Inl err, st2)
                  | (Inr u, st2) \<Rightarrow>
                      (case reconcilePrimaryStatus e contacts (ID primaryContact) st2 of
                         (Inl err, st3) \<Rightarrow> (Inl err, st3)
                       | (Inr u', st3) \<Rightarrow> buildResponse e (ID primaryContact) st3)))) = (Inr resp, st')"
    unfolding Identify_def by (rule bindE) blast
  show ?thesis
  proof (cases "cs = []")
    case True
    with r have "(case createPrimaryContact e (email req) (phoneNumber req) st1 of
               (Inl err, st2) \<Rightarrow> (Inl err, st2)
             | (Inr primaryContact, st2) \<Rightarrow> buildResponse e (ID primaryContact) st2) = (Inr resp, st')"
      by simp
    then obtain c st2 where "createPrimaryContact e (email req) (phoneNumber req) st1 = (Inr c, st2)"
      "buildResponse e (ID c) st2 = (Inr resp, st')"
      by (rule bindE) blast
    with f True show ?thesis by auto
  next
    case False
    obtain po sl where o: "findOldestContact cs = (po, sl)" by (cases "findOldestContact cs")
    show ?thesis
    proof (cases po)
      case None
      with r False o show ?thesis by simp
    next
      case (Some p)
      with r False o have r2: "(case (if hasNewInformation sl (email req) (phoneNumber req)
                        then (case createSecondaryContact e (email req) (phoneNumber req)
                                     (ID p) st1 of
                                (Inl err, st') \<Rightarrow> (Inl err, st')
                              | (Inr c, st') \<Rightarrow> (Inr (), st'))
                        else (Inr (), st1)) of
                    (Inl err, st2) \<Rightarrow> (Inl err, st2)
                  | (Inr u, st2) \<Rightarrow>
                      (case reconcilePrimaryStatus e sl (ID p) st2 of
                         (Inl err, st3) \<Rightarrow> (Inl err, st3)
                       | (Inr u', st3) \<Rightarrow> buildResponse e (ID p) st3)) = (Inr resp, st')"
        by simp
      then obtain u st2 where
        n: "(if hasNewInformation sl (email req) (phoneNumber req)
                        then (case createSecondaryContact e (email req) (phoneNumber req)
                                     (ID p) st1 of
                                (Inl err, st') \<Rightarrow> (Inl err, st')
                              | (Inr c, st') \<Rightarrow> (Inr (), st'))
                        else (Inr (), st1)) = (Inr u, st2)"
        and r3: "(case reconcilePrimaryStatus e sl (ID p) st2 of
                         (Inl err, st3) \<Rightarrow> (Inl err, st3)
                       | (Inr u', st3) \<Rightarrow> buildResponse e (ID p) st3) = (Inr resp, st')"
        by (rule bindE) blast
      from r3 obtain u' st3 where rc: "reconcilePrimaryStatus e sl (ID p) st2 = (Inr u', st3)"
        and b: "buildResponse e (ID p) st3 = (Inr resp, st')"
        by (rule bindE) blast
      have n': "if hasNewInformation sl (email req) (phoneNumber req)
              then (\<exists>c. createSecondaryContact e (email req) (phoneNumber req) (ID p) st1
                          = (Inr c, st2))
              else st2 = st1"
      proof (cases "hasNewInformation sl (email req) (phoneNumber req)")
        case True
        with n have "(case createSecondaryContact e (email req) (phoneNumber req) (ID p) st1 of
                                (Inl err, st') \<Rightarrow> (Inl err, st')
                              | (Inr c, st') \<Rightarrow> (Inr (), st')) = (Inr u, st2)"
          by simp
        then obtain c s where "createSecondaryContact e (email req) (phoneNumber req) (ID p) st1 = (Inr c, s)"
          "(Inr (), s) = (Inr u, st2)"
          by (rule bindE) blast
        with True show ?thesis by auto
      next
        case False
        with n show ?thesis by simp
      qed
      from f False o Some n' rc b show ?thesis by auto
    qed
  qed
qed

subsection \<open>The response projection\<close>

lemma primaryDetails_absent:
  "pid \<notin> ID ` set cs \<Longrightarrow> primaryDetails pid cs (pe, pp, ids) = (pe, pp, ids @ map ID cs)"
  by (induction cs arbitrary: ids) auto

lemma primaryDetails_unique:
  "distinct (map ID cs) \<Longrightarrow> p \<in> set cs \<Longrightarrow> ID p = pid \<Longrightarrow>
     primaryDetails pid cs (pe, pp, ids) =
       ((case Email p of None \<Rightarrow> pe | Some a \<Rightarrow> a),
        (case PhoneNumber p of None \<Rightarrow> pp | Some b \<Rightarrow> b),
        ids @ map ID (filter (\<lambda>c. ID c \<noteq> pid) cs))"
proof (induction cs arbitrary: ids)
  case Nil
  then show ?case by simp
next
  case (Cons c cs)
  show ?case
  proof (cases "ID c = pid")
    case True
    with Cons.prems have cp: "c = p" by (metis distinct_ID_eq list.set_intros(1))
    from True Cons.prems(1) have ab: "pid \<notin> ID ` set cs" by auto
    then have "filter (\<lambda>c. ID c \<noteq> pid) cs = cs" by (auto simp: filter_id_conv)
    with True cp primaryDetails_absent[OF ab] show ?thesis by simp
  next
    case False
    with Cons.prems have "p \<in> set cs" by auto
    with Cons.IH[of "ids @ [ID c]"] Cons.prems False show ?thesis by simp
  qed
qed

lemma set_map_filter: "set (List.map_filter f xs) = {a. \<exists>x\<in>set xs. f x = Some a}"
  by (induction xs) (auto split: option.splits)

lemma otherValues_set:
  "set (otherValues field v cs) = {a. a \<noteq> [] \<and> a \<noteq> v \<and> (\<exists>c\<in>set cs. field c = Some a)}"
proof -
  have k: "\<And>c a. ((case field c of None \<Rightarrow> None
                     | Some w \<Rightarrow> if w \<noteq> [] \<and> w \<noteq> v then Some w else None) = Some a)
                 = (field c = Some a \<and> a \<noteq> [] \<and> a \<noteq> v)"
  proof -
    fix c a
    show "((case field c of None \<Rightarrow> None
                     | Some w \<Rightarrow> if w \<noteq> [] \<and> w \<noteq> v then Some w else None) = Some a)
                 = (field c = Some a \<and> a \<noteq> [] \<and> a \<noteq> v)"
      by (cases "field c") auto
  qed
  show ?thesis
    unfolding otherValues_def set_remdups set_map_filter k by blast
qed

lemma otherValues_distinct: "distinct (otherValues field v cs)"
  by (simp add: otherValues_def)

lemma buildResponse_Inr:
  assumes "buildResponse e pid st = (Inr resp, st')"
  shows "rows st' = rows st" "nextID st' = nextID st"
    "resp = (case primaryDetails pid (rowOrder e (groupOf pid st)) ([], [], []) of
               (primaryEmail, primaryPhone, secondaryContactIDs) \<Rightarrow>
                 \<lparr>PrimaryContactID = pid,
                  Emails = (if primaryEmail \<noteq> [] then [primaryEmail] else [])
                     @ emailOrder e (otherValues Email primaryEmail (rowOrder e (groupOf pid st))),
                  PhoneNumbers = (if primaryPhone \<noteq> [] then [primaryPhone] else [])
                     @ phoneOrder e (otherValues PhoneNumber primaryPhone (rowOrder e (groupOf pid st))),
                  SecondaryContactIDs = secondaryContactIDs\<rparr>)"
proof -
  have "\<not> dbFails e (length (oplog st))"
    using assms
    by (auto simp: buildResponse_def getAllLinkedContacts_def queryContacts_def split: if_splits)
  then have g: "getAllLinkedContacts e pid st =
      (Inr (rowOrder e (groupOf pid st)), st\<lparr>oplog := oplog st @ [SelectGroup pid]\<rparr>)"
    by (simp add: getAllLinkedContacts_def queryContacts_def groupOf_def)
  obtain pe pp ids where
    pd: "primaryDetails pid (rowOrder e (groupOf pid st)) ([], [], []) = (pe, pp, ids)"
    by (cases "primaryDetails pid (rowOrder e (groupOf pid st)) ([], [], [])") auto
  from assms g pd show "rows st' = rows st" "nextID st' = nextID st"
    by (auto simp: buildResponse_def)
  from assms g pd show "resp = (case primaryDetails pid (rowOrder e (groupOf pid st)) ([], [], []) of
               (primaryEmail, primaryPhone, secondaryContactIDs) \<Rightarrow>
                 \<lparr>PrimaryContactID = pid,
                  Emails = (if primaryEmail \<noteq> [] then [primaryEmail] else [])
                     @ emailOrder e (otherValues Email primaryEmail (rowOrder e (groupOf pid st))),
                  PhoneNumbers = (if primaryPhone \<noteq> [] then [primaryPhone] else [])
                     @ phoneOrder e (otherValues PhoneNumber primaryPhone (rowOrder e (groupOf pid st))),
                  SecondaryContactIDs = secondaryContactIDs\<rparr>)"
    by (auto simp: buildResponse_def)
qed

lemma valuesFirst_built:
  assumes "set (ord (otherValues field v all)) = set (otherValues field v all)"
    and "distinct (ord (otherValues field v all)) = distinct (otherValues field v all)"
    and "v = (case field p of None \<Rightarrow> [] | Some a \<Rightarrow> a)"
    and "set all = set grp"
  shows "valuesFirst field p grp ((if v \<noteq> [] then [v] else []) @ ord (otherValues field v all))"
  unfolding valuesFirst_def
proof (intro exI[of _ "ord (otherValues field v all)"] conjI)
  show "(if v \<noteq> [] then [v] else []) @ ord (otherValues field v all) =
    (case field p of None \<Rightarrow> [] | Some a \<Rightarrow> if a \<noteq> [] then [a] else []) @
    ord (otherValues field v all)"
    using assms(3) by (auto split: option.splits)
  show "distinct ((if v \<noteq> [] then [v] else []) @ ord (otherValues field v all))"
    using assms(1,2) otherValues_distinct[of field v all] otherValues_set[of field v all]
    by auto
  show "set (ord (otherValues field v all)) =
    {a. a \<noteq> [] \<and> field p \<noteq> Some a \<and> (\<exists>c\<in>set grp. field c = Some a)}"
    unfolding assms(1) otherValues_set assms(4) using assms(3)
    by (auto split: option.splits)
qed

lemma buildResponse_projection:
  assumes "env_ok e" and "distinct (map ID (rows st))" and "p \<in> live st" and "ID p = pid"
    and "buildResponse e pid st = (Inr resp, st')"
  shows "PrimaryContactID resp = pid" "p \<in> set (groupOf pid st')"
    "valuesFirst Email p (groupOf pid st') (Emails resp)"
    "valuesFirst PhoneNumber p (groupOf pid st') (PhoneNumbers resp)"
    "distinct (SecondaryContactIDs resp)"
    "set (SecondaryContactIDs resp) = ID ` {c \<in> set (groupOf pid st'). ID c \<noteq> pid}"
proof -
  note b = buildResponse_Inr[OF assms(5)]
  define all where "all = rowOrder e (groupOf pid st)"
  have g: "groupOf pid st' = groupOf pid st" using b(1) by (simp add: groupOf_def)
  have sa: "set all = set (groupOf pid st)"
    unfolding all_def by (rule env_ok_set(1)[OF assms(1)])
  have pg: "p \<in> set (groupOf pid st)"
    using assms(3,4) by (simp add: groupOf_def live_def)
  have "distinct (map ID (groupOf pid st))"
    unfolding groupOf_def using assms(2) by (rule distinct_map_filter)
  moreover have "mset (map ID all) = mset (map ID (groupOf pid st))"
    unfolding all_def using env_ok_rows[OF assms(1)] by simp
  ultimately have da: "distinct (map ID all)"
    by (metis mset_eq_imp_distinct_iff)
  have pa: "p \<in> set all" using pg sa by simp
  note pd = primaryDetails_unique[OF da pa assms(4), of "[]" "[]" "[]"]
  define pe where "pe = (case Email p of None \<Rightarrow> [] | Some a \<Rightarrow> a)"
  define pp where "pp = (case PhoneNumber p of None \<Rightarrow> [] | Some a \<Rightarrow> a)"
  have resp: "resp = \<lparr>PrimaryContactID = pid,
                  Emails = (if pe \<noteq> [] then [pe] else []) @ emailOrder e (otherValues Email pe all),
                  PhoneNumbers = (if pp \<noteq> [] then [pp] else [])
                     @ phoneOrder e (otherValues PhoneNumber pp all),
                  SecondaryContactIDs = map ID (filter (\<lambda>c. ID c \<noteq> pid) all)\<rparr>"
    using b(3) pd unfolding all_def[symmetric] pe_def pp_def by simp
  show "PrimaryContactID resp = pid" using resp by simp
  show "p \<in> set (groupOf pid st')" using pg g by simp
  have "valuesFirst Email p (groupOf pid st)
          ((if pe \<noteq> [] then [pe] else []) @ emailOrder e (otherValues Email pe all))"
    using env_ok_set(4)[OF assms(1)] env_ok_distinct(1)[OF assms(1)] pe_def sa
    by (rule valuesFirst_built)
  then show "valuesFirst Email p (groupOf pid st') (Emails resp)"
    using resp g by simp
  have "valuesFirst PhoneNumber p (groupOf pid st)
          ((if pp \<noteq> [] then [pp] else []) @ phoneOrder e (otherValues PhoneNumber pp all))"
    using env_ok_set(5)[OF assms(1)] env_ok_distinct(2)[OF assms(1)] pp_def sa
    by (rule valuesFirst_built)
  then show "valuesFirst PhoneNumber p (groupOf pid st') (PhoneNumbers resp)"
    using resp g by simp
  show "distinct (SecondaryContactIDs resp)"
    using resp da by (simp add: distinct_map_filter)
  show "set (SecondaryContactIDs resp) = ID ` {c \<in> set (groupOf pid st'). ID c \<noteq> pid}"
    using resp sa g by auto
qed

subsection \<open>The schema's constraints are kept\<close>

lemma store_ok_cong:
  "rows st' = rows st \<Longrightarrow> nextID st' = nextID st \<Longrightarrow> store_ok st' = store_ok st"
  by (simp add: store_ok_def)

lemma store_ok_append:
  assumes "store_ok st" and "rows st' = rows st @ [c]" and "nextID st' = nextID st + 1"
    and "ID c = nextID st"
    and "LinkedID c = None \<or> (\<exists>l\<in>ID ` set (rows st). LinkedID c = Some l)"
  shows "store_ok st'"
proof -
  from assms(1) have d: "distinct (map ID (rows st))"
    and lt: "\<forall>r\<in>set (rows st). ID r < nextID st"
    and fk: "\<forall>r\<in>set (rows st). \<forall>l. LinkedID r = Some l \<longrightarrow> l \<in> ID ` set (rows st)"
    unfolding store_ok_def by blast+
  have "ID c \<notin> ID ` set (rows st)" using lt assms(4) by auto
  then have 1: "distinct (map ID (rows st'))" using d assms(2) by simp
  have 2: "\<forall>r\<in>set (rows st'). ID r < nextID st'" using lt assms(2,3,4) by auto
  have 3: "\<forall>r\<in>set (rows st'). \<forall>l. LinkedID r = Some l \<longrightarrow> l \<in> ID ` set (rows st')"
  proof (intro ballI allI impI)
    fix r l assume r: "r \<in> set (rows st')" and l: "LinkedID r = Some l"
    have "l \<in> ID ` set (rows st)"
    proof (cases "r = c")
      case True
      with assms(5) l show ?thesis by auto
    next
      case False
      with r assms(2) have "r \<in> set (rows st)" by simp
      with fk l show ?thesis by blast
    qed
    then show "l \<in> ID ` set (rows st')" using assms(2) by auto
  qed
  from 1 2 3 show ?thesis unfolding store_ok_def by blast
qed

lemma relinksD:
  assumes "relinks A pid f"
  shows "ID (f r) = ID r" "Email (f r) = Email r" "PhoneNumber (f r) = PhoneNumber r"
    "DeletedAt (f r) = DeletedAt r" "CreatedAt (f r) = CreatedAt r" "ID r \<notin> A \<Longrightarrow> f r = r"
    "f r = r \<or> LinkedID (f r) = None \<or> LinkedID (f r) = Some pid"
  using assms unfolding relinks_def by blast+

lemma relinks_map_ID: "relinks A pid f \<Longrightarrow> map ID (map f xs) = map ID xs"
  by (simp add: relinksD(1))

lemma store_ok_relinks:
  assumes "store_ok st" and "relinks A pid f" and "rows st' = map f (rows st)"
    and "nextID st' = nextID st" and "pid \<in> ID ` set (rows st)"
  shows "store_ok st'"
proof -
  from assms(1) have d: "distinct (map ID (rows st))"
    and lt: "\<forall>r\<in>set (rows st). ID r < nextID st"
    and fk: "\<forall>r\<in>set (rows st). \<forall>l. LinkedID r = Some l \<longrightarrow> l \<in> ID ` set (rows st)"
    unfolding store_ok_def by blast+
  have ids: "map ID (rows st') = map ID (rows st)"
    unfolding assms(3) using assms(2) by (rule relinks_map_ID)
  then have "set (map ID (rows st')) = set (map ID (rows st))" by simp
  then have ids': "ID ` set (rows st') = ID ` set (rows st)" by simp
  have 1: "distinct (map ID (rows st'))" using d ids by simp
  have 2: "\<forall>r\<in>set (rows st'). ID r < nextID st'"
  proof
    fix r' assume "r' \<in> set (rows st')"
    with assms(3) obtain r where "r \<in> set (rows st)" and "r' = f r" by auto
    then show "ID r' < nextID st'"
      using lt relinksD(1)[OF assms(2), of r] assms(4) by simp
  qed
  have 3: "\<forall>r\<in>set (rows st'). \<forall>l. LinkedID r = Some l \<longrightarrow> l \<in> ID ` set (rows st')"
  proof (intro ballI allI impI)
    fix r' l assume r: "r' \<in> set (rows st')" and l: "LinkedID r' = Some l"
    from r assms(3) obtain r where r0: "r \<in> set (rows st)" and fr: "r' = f r" by auto
    from relinksD(7)[OF assms(2), of r] fr l
    have "r' = r \<or> l = pid" by auto
    then have "l \<in> ID ` set (rows st)"
      using r0 fk l assms(5) by blast
    then show "l \<in> ID ` set (rows st')" using ids' by simp
  qed
  from 1 2 3 show ?thesis unfolding store_ok_def by blast
qed

lemma store_ok_emptyStore: "store_ok emptyStore"
  by (simp add: store_ok_def emptyStore_def)

lemma hasNewInformation_iff:
  "hasNewInformation cs em ph =
     ((\<exists>a. em = Some a \<and> a \<noteq> [] \<and> (\<forall>c\<in>set cs. Email c \<noteq> Some a))
      \<or> (\<exists>b. ph = Some b \<and> b \<noteq> [] \<and> (\<forall>c\<in>set cs. PhoneNumber c \<noteq> Some b)))"
proof -
  have e: "\<And>a. (a \<notin> set (List.map_filter Email cs)) = (\<forall>c\<in>set cs. Email c \<noteq> Some a)"
    unfolding set_map_filter by blast
  have p: "\<And>b. (b \<notin> set (List.map_filter PhoneNumber cs)) = (\<forall>c\<in>set cs. PhoneNumber c \<noteq> Some b)"
    unfolding set_map_filter by blast
  show ?thesis
    unfolding hasNewInformation_def Let_def e p
    by (cases em; cases ph) simp_all
qed

lemma Identify_fresh:
  assumes "findLinkedContacts e (email req) (phoneNumber req) st = (Inr [], st1)"
    and "env_ok e" and "Identify e req st = (Inr resp, st')"
  shows "\<exists>st2. rows st2 = rows st @ [\<lparr>ID = nextID st, PhoneNumber = phoneNumber req,
                 Email = email req, LinkedID = None, LinkPrecedence = ''primary'',
                 CreatedAt = now e, UpdatedAt = now e, DeletedAt = None\<rparr>]
          \<and> nextID st2 = nextID st + 1
          \<and> buildResponse e (nextID st) st2 = (Inr resp, st')"
proof -
  from Identify_InrD[OF assms(3)] assms(1) obtain c st2 where
    cp: "createPrimaryContact e (email req) (phoneNumber req) st1 = (Inr c, st2)"
    and b: "buildResponse e (ID c) st2 = (Inr resp, st')"
    by auto
  note fl = findLinkedContacts_Inr[OF assms(1,2)]
  note c = createPrimaryContact_Inr[OF cp]
  have "ID c = nextID st" using c(1) fl(2) by simp
  with c fl b show ?thesis by (intro exI[of _ st2]) simp
qed

lemma Identify_found:
  assumes "findLinkedContacts e (email req) (phoneNumber req) st = (Inr cs, st1)" and "cs \<noteq> []"
    and "env_ok e" and "store_ok st" and "Identify e req st = (Inr resp, st')"
  shows "\<exists>p sl f st3. findOldestContact cs = (Some p, sl) \<and> p \<in> set cs \<and> set sl = set cs
          \<and> relinks (ID ` set cs) (ID p) f
          \<and> rows st3 = map f (rows st)
               @ (if hasNewInformation sl (email req) (phoneNumber req)
                  then [\<lparr>ID = nextID st, PhoneNumber = phoneNumber req, Email = email req,
                         LinkedID = Some (ID p), LinkPrecedence = ''secondary'',
                         CreatedAt = now e, UpdatedAt = now e, DeletedAt = None\<rparr>]
                  else [])
          \<and> nextID st3 = nextID st
               + (if hasNewInformation sl (email req) (phoneNumber req) then 1 else 0)
          \<and> buildResponse e (ID p) st3 = (Inr resp, st')"
proof -
  note fl = findLinkedContacts_Inr[OF assms(1,3)]
  from Identify_InrD[OF assms(5)] assms(1,2) obtain p sl st2 st3 where
    o: "findOldestContact cs = (Some p, sl)"
    and n: "if hasNewInformation sl (email req) (phoneNumber req)
              then (\<exists>c. createSecondaryContact e (email req) (phoneNumber req) (ID p) st1
                          = (Inr c, st2))
              else st2 = st1"
    and rc: "reconcilePrimaryStatus e sl (ID p) st2 = (Inr (), st3)"
    and b: "buildResponse e (ID p) st3 = (Inr resp, st')"
    by auto
  from findOldestContact_Some[OF assms(2)] o obtain rest where
    sl: "sl = sortSlice cs" and pr: "p # rest = sortSlice cs"
    by auto
  have psl: "p \<in> set sl" unfolding sl pr[symmetric] by simp
  have ssl: "set sl = set cs" using sl sortSlice_set by simp
  have pcs: "p \<in> set cs" using psl ssl by simp
  from reconcile_relinks[OF rc] obtain f where
    f: "relinks (ID ` set cs) (ID p) f" "rows st3 = map f (rows st2)" "nextID st3 = nextID st2"
    unfolding ssl by blast
  define new where "new = \<lparr>ID = nextID st, PhoneNumber = phoneNumber req, Email = email req,
                         LinkedID = Some (ID p), LinkPrecedence = ''secondary'',
                         CreatedAt = now e, UpdatedAt = now e, DeletedAt = None\<rparr>"
  have lt: "\<forall>r\<in>set (rows st). ID r < nextID st" using assms(4) unfolding store_ok_def by blast
  have "set cs \<subseteq> set (rows st)" using fl(3) unfolding live_def by blast
  then have "ID new \<notin> ID ` set cs" using lt unfolding new_def by auto
  then have fnew: "f new = new" using relinksD(6)[OF f(1)] by simp
  have st2: "rows st2 = rows st @ (if hasNewInformation sl (email req) (phoneNumber req) then [new] else [])
      \<and> nextID st2 = nextID st + (if hasNewInformation sl (email req) (phoneNumber req) then 1 else 0)"
  proof (cases "hasNewInformation sl (email req) (phoneNumber req)")
    case True
    with n obtain c where "createSecondaryContact e (email req) (phoneNumber req) (ID p) st1 = (Inr c, st2)"
      by auto
    from createSecondaryContact_Inr[OF this] fl True show ?thesis
      unfolding new_def by simp
  next
    case False
    with n fl show ?thesis by simp
  qed
  have r3: "rows st3 = map f (rows st) @ (if hasNewInformation sl (email req) (phoneNumber req) then [new] else [])"
    using f(2) st2 fnew by simp
  have n3: "nextID st3 = nextID st
               + (if hasNewInformation sl (email req) (phoneNumber req) then 1 else 0)"
    using f(3) st2 by simp
  have "findOldestContact cs = (Some p, sl) \<and> p \<in> set cs \<and> set sl = set cs
          \<and> relinks (ID ` set cs) (ID p) f
          \<and> rows st3 = map f (rows st)
               @ (if hasNewInformation sl (email req) (phoneNumber req) then [new] else [])
          \<and> nextID st3 = nextID st
               + (if hasNewInformation sl (email req) (phoneNumber req) then 1 else 0)
          \<and> buildResponse e (ID p) st3 = (Inr resp, st')"
    using o pcs ssl f(1) r3 n3 b by simp
  then show ?thesis
    unfolding new_def by - (rule exI)+
qed

lemma Identify_stages:
  assumes "env_ok e" and "store_ok st" and "Identify e req st = (Inr resp, st')"
  shows "\<exists>pid st2. buildResponse e pid st2 = (Inr resp, st') \<and> store_ok st2
           \<and> (\<exists>p\<in>live st2. ID p = pid)"
proof -
  from Identify_InrD[OF assms(3)] obtain cs st1 where
    fd: "findLinkedContacts e (email req) (phoneNumber req) st = (Inr cs, st1)" by blast
  note fl = findLinkedContacts_Inr[OF fd assms(1)]
  show ?thesis
  proof (cases "cs = []")
    case True
    define c where "c = \<lparr>ID = nextID st, PhoneNumber = phoneNumber req,
                 Email = email req, LinkedID = None, LinkPrecedence = ''primary'',
                 CreatedAt = now e, UpdatedAt = now e, DeletedAt = None\<rparr>"
    from Identify_fresh[OF fd[unfolded True] assms(1,3)] obtain st2 where
      s: "rows st2 = rows st @ [c]" "nextID st2 = nextID st + 1"
      "buildResponse e (nextID st) st2 = (Inr resp, st')"
      unfolding c_def by blast
    have "store_ok st2"
      using assms(2) s(1,2) by (rule store_ok_append) (simp_all add: c_def)
    moreover have "c \<in> live st2" "ID c = nextID st"
      using s(1) by (simp_all add: live_def c_def)
    ultimately show ?thesis using s(3) by blast
  next
    case False
    from Identify_found[OF fd False assms(1,2,3)] obtain p sl f st3 where
      a: "p \<in> set cs" "relinks (ID ` set cs) (ID p) f"
      and r: "rows st3 = map f (rows st)
               @ (if hasNewInformation sl (email req) (phoneNumber req)
                  then [\<lparr>ID = nextID st, PhoneNumber = phoneNumber req, Email = email req,
                         LinkedID = Some (ID p), LinkPrecedence = ''secondary'',
                         CreatedAt = now e, UpdatedAt = now e, DeletedAt = None\<rparr>]
                  else [])"
      and n: "nextID st3 = nextID st
               + (if hasNewInformation sl (email req) (phoneNumber req) then 1 else 0)"
      and b: "buildResponse e (ID p) st3 = (Inr resp, st')"
      by blast
    have pl: "p \<in> live st" using a(1) fl(3) by blast
    then have pr: "p \<in> set (rows st)" and pd: "DeletedAt p = None" by (simp_all add: live_def)
    define sm where "sm = st\<lparr>rows := map f (rows st)\<rparr>"
    have okm: "store_ok sm"
      using assms(2) a(2) by (rule store_ok_relinks) (use pr in \<open>auto simp: sm_def\<close>)
    have fpm: "f p \<in> set (rows sm)" using pr by (simp add: sm_def)
    have fp: "ID (f p) = ID p" "DeletedAt (f p) = None"
      using relinksD(1,4)[OF a(2)] pd by simp_all
    have ok3: "store_ok st3"
    proof (cases "hasNewInformation sl (email req) (phoneNumber req)")
      case True
      show ?thesis
        using okm
      proof (rule store_ok_append)
        show "rows st3 = rows sm @ [\<lparr>ID = nextID st, PhoneNumber = phoneNumber req, Email = email req,
                         LinkedID = Some (ID p), LinkPrecedence = ''secondary'',
                         CreatedAt = now e, UpdatedAt = now e, DeletedAt = None\<rparr>]"
          using r True by (simp add: sm_def)
        show "nextID st3 = nextID sm + 1" using n True by (simp add: sm_def)
        show "ID \<lparr>ID = nextID st, PhoneNumber = phoneNumber req, Email = email req,
                         LinkedID = Some (ID p), LinkPrecedence = ''secondary'',
                         CreatedAt = now e, UpdatedAt = now e, DeletedAt = None\<rparr> = nextID sm"
          by (simp add: sm_def)
        have "ID p \<in> ID ` set (rows sm)" using fpm fp(1) by (metis imageI)
        then show "LinkedID \<lparr>ID = nextID st, PhoneNumber = phoneNumber req, Email = email req,
                         LinkedID = Some (ID p), LinkPrecedence = ''secondary'',
                         CreatedAt = now e, UpdatedAt = now e, DeletedAt = None\<rparr> = None \<or>
          (\<exists>l\<in>ID ` set (rows sm). LinkedID \<lparr>ID = nextID st, PhoneNumber = phoneNumber req, Email = email req,
                         LinkedID = Some (ID p), LinkPrecedence = ''secondary'',
                         CreatedAt = now e, UpdatedAt = now e, DeletedAt = None\<rparr> = Some l)"
          by simp
      qed
    next
      case False
      then have "rows st3 = rows sm" "nextID st3 = nextID sm" using r n by (simp_all add: sm_def)
      then show ?thesis using okm store_ok_cong by blast
    qed
    have "f p \<in> set (rows st3)" using r pr by simp
    then have "f p \<in> live st3" using fp(2) by (simp add: live_def)
    with ok3 b fp(1) show ?thesis by blast
  qed
qed

lemma Identify_store_ok:
  assumes "env_ok e" and "store_ok st" and "Identify e req st = (Inr resp, st')"
  shows "store_ok st'"
proof -
  from Identify_stages[OF assms] obtain pid st2 where
    "buildResponse e pid st2 = (Inr resp, st')" "store_ok st2" by blast
  with buildResponse_Inr(1,2)[of e pid st2 resp st'] store_ok_cong show ?thesis by blast
qed

lemma env_ok_plainEnv: "env_ok (plainEnv t)"
  by (simp add: env_ok_def plainEnv_def)

lemma store_ok_twinStore: "store_ok twinStore"
  by (simp add: store_ok_def twinStore_def twinA_def twinB_def)

subsection \<open>C5: a secondary is created exactly for new information\<close>

text \<open>
  C5: in a successful Identify whose touched set \<open>cs\<close> is not empty, with \<open>p\<close> the
  record chosen as primary: if the supplied email is present, non-empty and on no record
  of the touched set, or the supplied phone number is, the table gains exactly one row,
  with the next id, the supplied email and phone number, precedence secondary and
  \<open>LinkedID\<close> the id of \<open>p\<close>; otherwise the table has the rows (by id) it had.
\<close>

theorem Identify_creates_secondary_iff_new:
  assumes "env_ok e" and "store_ok st"
    and "findLinkedContacts e (email req) (phoneNumber req) st = (Inr cs, st1)" and "cs \<noteq> []"
    and "Identify e req st = (Inr resp, st')"
  shows "\<exists>p sl. findOldestContact cs = (Some p, sl) \<and> PrimaryContactID resp = ID p \<and>
     (if (\<exists>a. email req = Some a \<and> a \<noteq> [] \<and> (\<forall>c\<in>set cs. Email c \<noteq> Some a))
         \<or> (\<exists>b. phoneNumber req = Some b \<and> b \<noteq> [] \<and> (\<forall>c\<in>set cs. PhoneNumber c \<noteq> Some b))
      then map ID (rows st') = map ID (rows st) @ [nextID st]
         \<and> last (rows st') =
             \<lparr>ID = nextID st, PhoneNumber = phoneNumber req, Email = email req,
              LinkedID = Some (ID p), LinkPrecedence = ''secondary'',
              CreatedAt = now e, UpdatedAt = now e, DeletedAt = None\<rparr>
      else map ID (rows st') = map ID (rows st))"
proof -
  from Identify_found[OF assms(3,4,1,2,5)] obtain p sl f st3 where
    o: "findOldestContact cs = (Some p, sl)" and ssl: "set sl = set cs"
    and f: "relinks (ID ` set cs) (ID p) f"
    and r: "rows st3 = map f (rows st)
               @ (if hasNewInformation sl (email req) (phoneNumber req)
                  then [\<lparr>ID = nextID st, PhoneNumber = phoneNumber req, Email = email req,
                         LinkedID = Some (ID p), LinkPrecedence = ''secondary'',
                         CreatedAt = now e, UpdatedAt = now e, DeletedAt = None\<rparr>]
                  else [])"
    and b: "buildResponse e (ID p) st3 = (Inr resp, st')"
    by blast
  have h: "hasNewInformation sl (email req) (phoneNumber req) =
     ((\<exists>a. email req = Some a \<and> a \<noteq> [] \<and> (\<forall>c\<in>set cs. Email c \<noteq> Some a))
         \<or> (\<exists>b. phoneNumber req = Some b \<and> b \<noteq> [] \<and> (\<forall>c\<in>set cs. PhoneNumber c \<noteq> Some b)))"
    unfolding hasNewInformation_iff ssl ..
  have rs: "rows st' = rows st3" using buildResponse_Inr(1)[OF b] .
  have pid: "PrimaryContactID resp = ID p"
    using buildResponse_Inr(3)[OF b] by (simp split: prod.splits)
  have ids: "map ID (map f (rows st)) = map ID (rows st)"
    using f by (rule relinks_map_ID)
  have "if hasNewInformation sl (email req) (phoneNumber req)
      then map ID (rows st') = map ID (rows st) @ [nextID st]
         \<and> last (rows st') =
             \<lparr>ID = nextID st, PhoneNumber = phoneNumber req, Email = email req,
              LinkedID = Some (ID p), LinkPrecedence = ''secondary'',
              CreatedAt = now e, UpdatedAt = now e, DeletedAt = None\<rparr>
      else map ID (rows st') = map ID (rows st)"
    using r rs ids by simp
  with o pid show ?thesis unfolding h by blast
qed

theorem Identify_creates_secondary_iff_new_witness:
  "map ID (rows (snd (Identify (plainEnv 6)
       \<lparr>email = Some ''a@x.com'', phoneNumber = Some ''333''\<rparr> twinStore))) = [1, 2, 3]
   \<and> LinkedID (last (rows (snd (Identify (plainEnv 6)
       \<lparr>email = Some ''a@x.com'', phoneNumber = Some ''333''\<rparr> twinStore)))) = Some 1
   \<and> map ID (rows (snd (Identify (plainEnv 6)
       \<lparr>email = Some ''a@x.com'', phoneNumber = Some ''111''\<rparr> twinStore))) = [1, 2]"
proof -
  let ?r3 = "\<lparr>email = Some ''a@x.com'', phoneNumber = Some ''333''\<rparr>"
  let ?r1 = "\<lparr>email = Some ''a@x.com'', phoneNumber = Some ''111''\<rparr>"
  have f3: "findLinkedContacts (plainEnv 6) (email ?r3) (phoneNumber ?r3) twinStore
      = (Inr [twinA], snd (findLinkedContacts (plainEnv 6) (email ?r3) (phoneNumber ?r3) twinStore))"
    unfolding prod_eq_iff by (rule conjI) (code_simp, simp)
  have f1: "findLinkedContacts (plainEnv 6) (email ?r1) (phoneNumber ?r1) twinStore
      = (Inr [twinA], snd (findLinkedContacts (plainEnv 6) (email ?r1) (phoneNumber ?r1) twinStore))"
    unfolding prod_eq_iff by (rule conjI) (code_simp, simp)
  have i3: "Identify (plainEnv 6) ?r3 twinStore =
      (Inr \<lparr>PrimaryContactID = 1, Emails = [''a@x.com''], PhoneNumbers = [''111'', ''333''],
            SecondaryContactIDs = [3]\<rparr>, snd (Identify (plainEnv 6) ?r3 twinStore))"
    unfolding prod_eq_iff by (rule conjI) (code_simp, simp)
  have i1: "Identify (plainEnv 6) ?r1 twinStore =
      (Inr \<lparr>PrimaryContactID = 1, Emails = [''a@x.com''], PhoneNumbers = [''111''],
            SecondaryContactIDs = []\<rparr>, snd (Identify (plainEnv 6) ?r1 twinStore))"
    unfolding prod_eq_iff by (rule conjI) (code_simp, simp)
  have o: "findOldestContact [twinA] = (Some twinA, [twinA])"
    by (simp add: findOldestContact_def sortSlice_def)
  have ne: "[twinA] \<noteq> []" by simp
  from Identify_creates_secondary_iff_new[OF env_ok_plainEnv store_ok_twinStore f3 ne i3]
    Identify_creates_secondary_iff_new[OF env_ok_plainEnv store_ok_twinStore f1 ne i1] o
  show ?thesis
    by (simp add: twinA_def twinStore_def twinB_def)
qed

subsection \<open>C6: no record found\<close>

lemma otherValues_single_own:
  "otherValues field (case field c of None \<Rightarrow> [] | Some a \<Rightarrow> a) [c] = []"
  by (cases "field c") (simp_all add: otherValues_def List.map_filter_simps)

lemma groupOf_fresh:
  assumes "store_ok st" and "rows st2 = rows st @ [c]" and "ID c = nextID st"
    and "DeletedAt c = None"
  shows "groupOf (nextID st) st2 = [c]"
proof -
  from assms(1) have lt: "\<forall>r\<in>set (rows st). ID r < nextID st"
    and fk: "\<forall>r\<in>set (rows st). \<forall>l. LinkedID r = Some l \<longrightarrow> l \<in> ID ` set (rows st)"
    unfolding store_ok_def by blast+
  have "\<forall>r\<in>set (rows st). \<not> ((ID r = nextID st \<or> LinkedID r = Some (nextID st)) \<and> DeletedAt r = None)"
  proof
    fix r assume r: "r \<in> set (rows st)"
    have "ID r \<noteq> nextID st" using lt r by auto
    moreover have "LinkedID r \<noteq> Some (nextID st)"
    proof
      assume "LinkedID r = Some (nextID st)"
      with fk r have "nextID st \<in> ID ` set (rows st)" by blast
      with lt show False by auto
    qed
    ultimately show "\<not> ((ID r = nextID st \<or> LinkedID r = Some (nextID st)) \<and> DeletedAt r = None)"
      by simp
  qed
  then have "filter (\<lambda>c. (ID c = nextID st \<or> LinkedID c = Some (nextID st)) \<and> DeletedAt c = None)
      (rows st) = []"
    by (simp add: filter_empty_conv)
  then show ?thesis
    unfolding groupOf_def assms(2) using assms(3,4) by simp
qed

text \<open>
  C6: a successful Identify whose discovery finds no record adds exactly one row: the next
  id, the supplied email and phone number, precedence primary, no link. The response
  names that id, lists the supplied email and phone number where they are non-empty, and
  has no secondary ids.
\<close>

theorem Identify_creates_primary:
  assumes "env_ok e" and "store_ok st"
    and "findLinkedContacts e (email req) (phoneNumber req) st = (Inr [], st1)"
    and "Identify e req st = (Inr resp, st')"
  shows "rows st' = rows st @ [\<lparr>ID = nextID st, PhoneNumber = phoneNumber req,
                 Email = email req, LinkedID = None, LinkPrecedence = ''primary'',
                 CreatedAt = now e, UpdatedAt = now e, DeletedAt = None\<rparr>]
       \<and> resp = \<lparr>PrimaryContactID = nextID st,
                 Emails = (case email req of None \<Rightarrow> [] | Some a \<Rightarrow> if a \<noteq> [] then [a] else []),
                 PhoneNumbers =
                   (case phoneNumber req of None \<Rightarrow> [] | Some b \<Rightarrow> if b \<noteq> [] then [b] else []),
                 SecondaryContactIDs = []\<rparr>"
proof -
  define c where "c = \<lparr>ID = nextID st, PhoneNumber = phoneNumber req,
                 Email = email req, LinkedID = None, LinkPrecedence = ''primary'',
                 CreatedAt = now e, UpdatedAt = now e, DeletedAt = None\<rparr>"
  from Identify_fresh[OF assms(3,1,4)] obtain st2 where
    r2: "rows st2 = rows st @ [c]"
    and b: "buildResponse e (nextID st) st2 = (Inr resp, st')"
    unfolding c_def by blast
  have g: "groupOf (nextID st) st2 = [c]"
    using assms(2) r2 by (rule groupOf_fresh) (simp_all add: c_def)
  have ro: "rowOrder e (groupOf (nextID st) st2) = [c]"
    unfolding g by (rule env_ok_single[OF assms(1)])
  have pd: "primaryDetails (nextID st) [c] ([], [], []) =
      ((case Email c of None \<Rightarrow> [] | Some a \<Rightarrow> a),
       (case PhoneNumber c of None \<Rightarrow> [] | Some b \<Rightarrow> b), [])"
    by (simp add: c_def)
  have resp: "resp = \<lparr>PrimaryContactID = nextID st,
      Emails = (if (case Email c of None \<Rightarrow> [] | Some a \<Rightarrow> a) \<noteq> []
                then [case Email c of None \<Rightarrow> [] | Some a \<Rightarrow> a] else []),
      PhoneNumbers = (if (case PhoneNumber c of None \<Rightarrow> [] | Some a \<Rightarrow> a) \<noteq> []
                then [case PhoneNumber c of None \<Rightarrow> [] | Some a \<Rightarrow> a] else []),
      SecondaryContactIDs = []\<rparr>"
    using buildResponse_Inr(3)[OF b] unfolding ro pd
    by (simp add: otherValues_single_own env_ok_Nil[OF assms(1)])
  have e: "(if (case Email c of None \<Rightarrow> [] | Some a \<Rightarrow> a) \<noteq> []
                then [case Email c of None \<Rightarrow> [] | Some a \<Rightarrow> a] else [])
        = (case email req of None \<Rightarrow> [] | Some a \<Rightarrow> if a \<noteq> [] then [a] else [])"
    by (cases "email req") (simp_all add: c_def)
  have p: "(if (case PhoneNumber c of None \<Rightarrow> [] | Some a \<Rightarrow> a) \<noteq> []
                then [case PhoneNumber c of None \<Rightarrow> [] | Some a \<Rightarrow> a] else [])
        = (case phoneNumber req of None \<Rightarrow> [] | Some a \<Rightarrow> if a \<noteq> [] then [a] else [])"
    by (cases "phoneNumber req") (simp_all add: c_def)
  have rs: "rows st' = rows st @ [c]" using buildResponse_Inr(1)[OF b] r2 by simp
  have "resp = \<lparr>PrimaryContactID = nextID st,
                 Emails = (case email req of None \<Rightarrow> [] | Some a \<Rightarrow> if a \<noteq> [] then [a] else []),
                 PhoneNumbers =
                   (case phoneNumber req of None \<Rightarrow> [] | Some b \<Rightarrow> if b \<noteq> [] then [b] else []),
                 SecondaryContactIDs = []\<rparr>"
    using resp unfolding e p .
  with rs show ?thesis unfolding c_def by (rule conjI)
qed

theorem Identify_creates_primary_witness:
  "Identify (plainEnv 1) \<lparr>email = Some ''u@x.com'', phoneNumber = Some ''111''\<rparr> emptyStore =
     (Inr \<lparr>PrimaryContactID = 1, Emails = [''u@x.com''], PhoneNumbers = [''111''],
           SecondaryContactIDs = []\<rparr>,
      \<lparr>rows = [\<lparr>ID = 1, PhoneNumber = Some ''111'', Email = Some ''u@x.com'', LinkedID = None,
                LinkPrecedence = ''primary'', CreatedAt = 1, UpdatedAt = 1, DeletedAt = None\<rparr>],
       nextID = 2,
       oplog = [SelectByEmail ''u@x.com'', SelectByPhoneNumber ''111'',
                InsertContact \<lparr>ID = 1, PhoneNumber = Some ''111'', Email = Some ''u@x.com'',
                  LinkedID = None, LinkPrecedence = ''primary'', CreatedAt = 1, UpdatedAt = 1,
                  DeletedAt = None\<rparr>,
                SelectGroup 1]\<rparr>)"
proof -
  let ?r = "\<lparr>email = Some ''u@x.com'', phoneNumber = Some ''111''\<rparr>"
  have f: "findLinkedContacts (plainEnv 1) (email ?r) (phoneNumber ?r) emptyStore
      = (Inr [], snd (findLinkedContacts (plainEnv 1) (email ?r) (phoneNumber ?r) emptyStore))"
    unfolding prod_eq_iff by (rule conjI) (code_simp, simp)
  have i: "Identify (plainEnv 1) ?r emptyStore =
      (Inr (projr (fst (Identify (plainEnv 1) ?r emptyStore))),
       snd (Identify (plainEnv 1) ?r emptyStore))"
    unfolding prod_eq_iff by (rule conjI) (code_simp, simp)
  have s: "snd (Identify (plainEnv 1) ?r emptyStore) =
      \<lparr>rows = [\<lparr>ID = 1, PhoneNumber = Some ''111'', Email = Some ''u@x.com'', LinkedID = None,
                LinkPrecedence = ''primary'', CreatedAt = 1, UpdatedAt = 1, DeletedAt = None\<rparr>],
       nextID = 2,
       oplog = [SelectByEmail ''u@x.com'', SelectByPhoneNumber ''111'',
                InsertContact \<lparr>ID = 1, PhoneNumber = Some ''111'', Email = Some ''u@x.com'',
                  LinkedID = None, LinkPrecedence = ''primary'', CreatedAt = 1, UpdatedAt = 1,
                  DeletedAt = None\<rparr>,
                SelectGroup 1]\<rparr>"
    by code_simp
  from Identify_creates_primary[OF env_ok_plainEnv store_ok_emptyStore f i]
  have "projr (fst (Identify (plainEnv 1) ?r emptyStore)) =
        \<lparr>PrimaryContactID = 1, Emails = [''u@x.com''], PhoneNumbers = [''111''],
           SecondaryContactIDs = []\<rparr>"
    by (simp add: emptyStore_def)
  with i s show ?thesis by simp
qed

subsection \<open>C9: the response\<close>

text \<open>
  C9: after a successful Identify on a table that meets the schema's constraints, the
  group fetched for the response holds the record \<open>p\<close> whose id the response names as
  primary; \<open>emails\<close> is the email of \<open>p\<close> (unless absent or empty) followed by the other
  non-empty emails of the group's records, no value twice; \<open>phoneNumbers\<close> likewise;
  and \<open>secondaryContactIds\<close> holds exactly the ids of the group's other records, each
  once.
\<close>

theorem Identify_response_projection:
  assumes "env_ok e" and "store_ok st" and "Identify e req st = (Inr resp, st')"
  shows "\<exists>p\<in>set (groupOf (PrimaryContactID resp) st').
           ID p = PrimaryContactID resp
         \<and> valuesFirst Email p (groupOf (PrimaryContactID resp) st') (Emails resp)
         \<and> valuesFirst PhoneNumber p (groupOf (PrimaryContactID resp) st') (PhoneNumbers resp)
         \<and> distinct (SecondaryContactIDs resp)
         \<and> set (SecondaryContactIDs resp) =
             ID ` {c \<in> set (groupOf (PrimaryContactID resp) st'). ID c \<noteq> PrimaryContactID resp}"
proof -
  from Identify_stages[OF assms] obtain pid st2 p where
    b: "buildResponse e pid st2 = (Inr resp, st')" and ok: "store_ok st2"
    and p: "p \<in> live st2" "ID p = pid"
    by blast
  from ok have d: "distinct (map ID (rows st2))" unfolding store_ok_def by blast
  note pr = buildResponse_projection[OF assms(1) d p b]
  show ?thesis
    unfolding pr(1) using pr(2-6) p(2) by blast
qed

theorem Identify_response_projection_witness:
  "\<exists>p\<in>set (groupOf 1 (snd (Identify (plainEnv 6)
         \<lparr>email = Some ''a@x.com'', phoneNumber = Some ''222''\<rparr> twinStore))).
     ID p = 1
     \<and> valuesFirst Email p (groupOf 1 (snd (Identify (plainEnv 6)
         \<lparr>email = Some ''a@x.com'', phoneNumber = Some ''222''\<rparr> twinStore)))
          [''a@x.com'', ''b@x.com'']
     \<and> valuesFirst PhoneNumber p (groupOf 1 (snd (Identify (plainEnv 6)
         \<lparr>email = Some ''a@x.com'', phoneNumber = Some ''222''\<rparr> twinStore)))
          [''111'', ''222'']
     \<and> set [2] = ID ` {c \<in> set (groupOf 1 (snd (Identify (plainEnv 6)
         \<lparr>email = Some ''a@x.com'', phoneNumber = Some ''222''\<rparr> twinStore))). ID c \<noteq> 1}"
proof -
  let ?r = "\<lparr>email = Some ''a@x.com'', phoneNumber = Some ''222''\<rparr>"
  have i: "Identify (plainEnv 6) ?r twinStore =
      (Inr \<lparr>PrimaryContactID = 1, Emails = [''a@x.com'', ''b@x.com''],
            PhoneNumbers = [''111'', ''222''], SecondaryContactIDs = [2]\<rparr>,
       snd (Identify (plainEnv 6) ?r twinStore))"
    unfolding prod_eq_iff by (rule conjI) (code_simp, simp)
  from Identify_response_projection[OF env_ok_plainEnv store_ok_twinStore i]
  show ?thesis by simp
qed

subsection \<open>C10: an empty string is as an absent field\<close>

lemma Identify_built:
  assumes "Identify e req st = (Inr resp, st')"
  shows "\<exists>pid st2. buildResponse e pid st2 = (Inr resp, st')"
proof -
  from Identify_InrD[OF assms] obtain cs st1 where
    r: "if cs = [] then
       (\<exists>c st2. createPrimaryContact e (email req) (phoneNumber req) st1 = (Inr c, st2)
          \<and> buildResponse e (ID c) st2 = (Inr resp, st'))
     else
       (\<exists>p sl st2 st3. findOldestContact cs = (Some p, sl)
          \<and> (if hasNewInformation sl (email req) (phoneNumber req)
              then (\<exists>c. createSecondaryContact e (email req) (phoneNumber req) (ID p) st1
                          = (Inr c, st2))
              else st2 = st1)
          \<and> reconcilePrimaryStatus e sl (ID p) st2 = (Inr (), st3)
          \<and> buildResponse e (ID p) st3 = (Inr resp, st'))"
    by blast
  show ?thesis
  proof (cases "cs = []")
    case True
    with r show ?thesis by auto
  next
    case False
    with r show ?thesis by auto
  qed
qed

lemma buildResponse_no_empty:
  assumes "env_ok e" and "buildResponse e pid st = (Inr resp, st')"
  shows "[] \<notin> set (Emails resp)" "[] \<notin> set (PhoneNumbers resp)"
proof -
  obtain pe pp ids where
    pd: "primaryDetails pid (rowOrder e (groupOf pid st)) ([], [], []) = (pe, pp, ids)"
    by (cases "primaryDetails pid (rowOrder e (groupOf pid st)) ([], [], [])") auto
  from buildResponse_Inr(3)[OF assms(2)] pd
  have em: "Emails resp = (if pe \<noteq> [] then [pe] else [])
                     @ emailOrder e (otherValues Email pe (rowOrder e (groupOf pid st)))"
    and ph: "PhoneNumbers resp = (if pp \<noteq> [] then [pp] else [])
                     @ phoneOrder e (otherValues PhoneNumber pp (rowOrder e (groupOf pid st)))"
    by simp_all
  show "[] \<notin> set (Emails resp)"
    unfolding em using env_ok_set(4)[OF assms(1)] otherValues_set[of Email pe] by auto
  show "[] \<notin> set (PhoneNumbers resp)"
    unfolding ph using env_ok_set(5)[OF assms(1)] otherValues_set[of PhoneNumber pp] by auto
qed

text \<open>
  C10: an email or phone number given as the empty string makes no query (the guarded
  block returns the map and the store, with its log of calls, as they were), discovery
  and the test for new information give what they give for an absent field, and no
  response of a successful Identify lists the empty string.
\<close>

theorem empty_string_as_absent:
  assumes "env_ok e"
  shows "addByEmail e (Some []) m st = (Inr m, st)
       \<and> addByPhoneNumber e (Some []) m st = (Inr m, st)
       \<and> findLinkedContacts e (Some []) ph st = findLinkedContacts e None ph st
       \<and> findLinkedContacts e em (Some []) st = findLinkedContacts e em None st
       \<and> hasNewInformation cs (Some []) ph = hasNewInformation cs None ph
       \<and> hasNewInformation cs em (Some []) = hasNewInformation cs em None
       \<and> (Identify e req st = (Inr resp, st')
            \<longrightarrow> [] \<notin> set (Emails resp) \<and> [] \<notin> set (PhoneNumbers resp))"
proof -
  have 1: "addByEmail e (Some []) m st = (Inr m, st)" for m st
    by (simp add: addByEmail_def)
  have 2: "addByPhoneNumber e (Some []) m st = (Inr m, st)" for m st
    by (simp add: addByPhoneNumber_def)
  have n1: "addByEmail e None m st = (Inr m, st)" for m st
    by (simp add: addByEmail_def)
  have n2: "addByPhoneNumber e None m st = (Inr m, st)" for m st
    by (simp add: addByPhoneNumber_def)
  have 3: "findLinkedContacts e (Some []) ph st = findLinkedContacts e None ph st"
    unfolding findLinkedContacts_def 1 n1 ..
  have 4: "findLinkedContacts e em (Some []) st = findLinkedContacts e em None st"
    unfolding findLinkedContacts_def 2 n2 ..
  have 5: "hasNewInformation cs (Some []) ph = hasNewInformation cs None ph"
    unfolding hasNewInformation_iff by simp
  have 6: "hasNewInformation cs em (Some []) = hasNewInformation cs em None"
    unfolding hasNewInformation_iff by simp
  have 7: "Identify e req st = (Inr resp, st')
            \<longrightarrow> [] \<notin> set (Emails resp) \<and> [] \<notin> set (PhoneNumbers resp)"
    using Identify_built buildResponse_no_empty[OF assms] by blast
  from 1 2 3 4 5 6 7 show ?thesis by blast
qed

theorem empty_string_as_absent_witness:
  "findLinkedContacts (plainEnv 6) (Some []) (Some ''111'') twinStore
     = findLinkedContacts (plainEnv 6) None (Some ''111'') twinStore
   \<and> hasNewInformation [twinA] (Some []) (Some ''111'') = hasNewInformation [twinA] None (Some ''111'')
   \<and> Identify (plainEnv 6) \<lparr>email = Some [], phoneNumber = Some ''111''\<rparr> twinStore =
      (Inr \<lparr>PrimaryContactID = 1, Emails = [''a@x.com''], PhoneNumbers = [''111''],
            SecondaryContactIDs = []\<rparr>,
       snd (Identify (plainEnv 6) \<lparr>email = Some [], phoneNumber = Some ''111''\<rparr> twinStore))
   \<and> [] \<notin> set [''a@x.com'']"
proof -
  let ?r = "\<lparr>email = Some [], phoneNumber = Some ''111''\<rparr>"
  have i: "Identify (plainEnv 6) ?r twinStore =
      (Inr \<lparr>PrimaryContactID = 1, Emails = [''a@x.com''], PhoneNumbers = [''111''],
            SecondaryContactIDs = []\<rparr>,
       snd (Identify (plainEnv 6) ?r twinStore))"
    unfolding prod_eq_iff by (rule conjI) (code_simp, simp)
  from empty_string_as_absent[OF env_ok_plainEnv[of 6], where st = twinStore and ph = "Some ''111''"
      and cs = "[twinA]" and req = ?r
      and resp = "\<lparr>PrimaryContactID = 1, Emails = [''a@x.com''], PhoneNumbers = [''111''],
            SecondaryContactIDs = []\<rparr>"
      and st' = "snd (Identify (plainEnv 6) ?r twinStore)"] i
  show ?thesis by simp
qed

subsection \<open>Identify succeeds when no store call fails\<close>

lemma queryContacts_succeeds:
  assumes "\<forall>n. \<not> dbFails e n"
  shows "\<exists>cs st'. queryContacts e q wh st = (Inr cs, st')"
  using assms by (simp add: queryContacts_def)

lemma addByEmail_succeeds:
  assumes "\<forall>n. \<not> dbFails e n"
  shows "\<exists>m' st'. addByEmail e em m st = (Inr m', st')"
proof (cases "\<exists>x. em = Some x \<and> x \<noteq> []")
  case True
  then obtain x where x: "em = Some x" "x \<noteq> []" by blast
  from queryContacts_succeeds[OF assms] obtain cs st' where
    "queryContactsByEmail e x st = (Inr cs, st')"
    unfolding queryContactsByEmail_def by blast
  with x show ?thesis by (simp add: addByEmail_def)
next
  case False
  then have "addByEmail e em m st = (Inr m, st)"
    by (cases em) (auto simp: addByEmail_def)
  then show ?thesis by blast
qed

lemma addByPhoneNumber_succeeds:
  assumes "\<forall>n. \<not> dbFails e n"
  shows "\<exists>m' st'. addByPhoneNumber e ph m st = (Inr m', st')"
proof (cases "\<exists>x. ph = Some x \<and> x \<noteq> []")
  case True
  then obtain x where x: "ph = Some x" "x \<noteq> []" by blast
  from queryContacts_succeeds[OF assms] obtain cs st' where
    "queryContactsByPhoneNumber e x st = (Inr cs, st')"
    unfolding queryContactsByPhoneNumber_def by blast
  with x show ?thesis by (simp add: addByPhoneNumber_def)
next
  case False
  then have "addByPhoneNumber e ph m st = (Inr m, st)"
    by (cases ph) (auto simp: addByPhoneNumber_def)
  then show ?thesis by blast
qed

lemma queryAllLinked_succeeds:
  assumes "\<forall>n. \<not> dbFails e n"
  shows "\<exists>m' st'. queryAllLinked e ls m st = (Inr m', st')"
proof (induction ls arbitrary: m st)
  case Nil
  show ?case by simp
next
  case (Cons l ls)
  from queryContacts_succeeds[OF assms] obtain cs st1 where
    q: "queryContactsByLinkedID e l st = (Inr cs, st1)"
    unfolding queryContactsByLinkedID_def by blast
  from Cons.IH[of "putAll m cs" st1] q show ?case by simp
qed

lemma findLinkedContacts_succeeds:
  assumes "\<forall>n. \<not> dbFails e n"
  shows "\<exists>cs st'. findLinkedContacts e em ph st = (Inr cs, st')"
proof -
  from addByEmail_succeeds[OF assms] obtain m1 st1 where
    a: "addByEmail e em [] st = (Inr m1, st1)" by blast
  from addByPhoneNumber_succeeds[OF assms] obtain m2 st2 where
    b: "addByPhoneNumber e ph m1 st1 = (Inr m2, st2)" by blast
  from queryAllLinked_succeeds[OF assms] obtain m3 st3 where
    c: "queryAllLinked e (linkedIDOrder e (allLinkedIDs m2)) m2 st2 = (Inr m3, st3)" by blast
  from a b c show ?thesis by (simp add: findLinkedContacts_def)
qed

lemma reconcilePrimaryStatus_succeeds:
  assumes "\<forall>n. \<not> dbFails e n"
  shows "\<exists>st'. reconcilePrimaryStatus e cs pid st = (Inr (), st')"
proof (induction cs arbitrary: st)
  case Nil
  show ?case by simp
next
  case (Cons c cs)
  have u: "\<exists>st1. updateContactPrecedence e i p l st = (Inr (), st1)" for i p l
    using assms by (simp add: updateContactPrecedence_def)
  from u[of "ID c" "''primary''" None] obtain sa where
    a: "updateContactPrecedence e (ID c) ''primary'' None st = (Inr (), sa)" by blast
  from u[of "ID c" "''secondary''" "Some pid"] obtain sb where
    b: "updateContactPrecedence e (ID c) ''secondary'' (Some pid) st = (Inr (), sb)" by blast
  from Cons.IH[of st] obtain s0 where
    r0: "reconcilePrimaryStatus e cs pid st = (Inr (), s0)" by blast
  from Cons.IH[of sa] obtain s1 where
    r1: "reconcilePrimaryStatus e cs pid sa = (Inr (), s1)" by blast
  from Cons.IH[of sb] obtain s2 where
    r2: "reconcilePrimaryStatus e cs pid sb = (Inr (), s2)" by blast
  have "reconcilePrimaryStatus e (c # cs) pid st = (Inr (), s0)
      \<or> reconcilePrimaryStatus e (c # cs) pid st = (Inr (), s1)
      \<or> reconcilePrimaryStatus e (c # cs) pid st = (Inr (), s2)"
    unfolding reconcilePrimaryStatus.simps a b using r0 r1 r2 by simp
  then show ?case by blast
qed

lemma buildResponse_succeeds:
  assumes "\<forall>n. \<not> dbFails e n"
  shows "\<exists>resp st'. buildResponse e pid st = (Inr resp, st')"
proof -
  from queryContacts_succeeds[OF assms] obtain cs st' where
    "getAllLinkedContacts e pid st = (Inr cs, st')"
    unfolding getAllLinkedContacts_def by blast
  then show ?thesis by (simp add: buildResponse_def split: prod.splits)
qed

lemma Identify_succeeds:
  assumes "\<forall>n. \<not> dbFails e n"
  shows "\<exists>resp st'. Identify e req st = (Inr resp, st')"
proof -
  from findLinkedContacts_succeeds[OF assms] obtain cs st1 where
    f: "findLinkedContacts e (email req) (phoneNumber req) st = (Inr cs, st1)" by blast
  show ?thesis
  proof (cases "cs = []")
    case True
    obtain c st2 where
      c: "createPrimaryContact e (email req) (phoneNumber req) st1 = (Inr c, st2)"
      using assms by (simp add: createPrimaryContact_def Let_def)
    from buildResponse_succeeds[OF assms] obtain resp st' where
      "buildResponse e (ID c) st2 = (Inr resp, st')" by blast
    with f True c show ?thesis by (simp add: Identify_def)
  next
    case False
    from findOldestContact_Some[OF False] obtain p rest where
      o: "findOldestContact cs = (Some p, p # rest)" by blast
    have "\<exists>st2. (if hasNewInformation (p # rest) (email req) (phoneNumber req)
                        then (case createSecondaryContact e (email req) (phoneNumber req)
                                     (ID p) st1 of
                                (Inl err, st') \<Rightarrow> (Inl err, st')
                              | (Inr c, st') \<Rightarrow> (Inr (), st'))
                        else (Inr (), st1)) = (Inr (), st2)"
      using assms by (simp add: createSecondaryContact_def Let_def)
    then obtain st2 where n: "(if hasNewInformation (p # rest) (email req) (phoneNumber req)
                        then (case createSecondaryContact e (email req) (phoneNumber req)
                                     (ID p) st1 of
                                (Inl err, st') \<Rightarrow> (Inl err, st')
                              | (Inr c, st') \<Rightarrow> (Inr (), st'))
                        else (Inr (), st1)) = (Inr (), st2)"
      by blast
    from reconcilePrimaryStatus_succeeds[OF assms] obtain st3 where
      r: "reconcilePrimaryStatus e (p # rest) (ID p) st2 = (Inr (), st3)" by blast
    from buildResponse_succeeds[OF assms] obtain resp st' where
      b: "buildResponse e (ID p) st3 = (Inr resp, st')" by blast
    have "Identify e req st = (Inr resp, st')"
      unfolding Identify_def f using False o n r b by simp
    then show ?thesis by blast
  qed
qed

subsection \<open>What discovery computes\<close>

lemma update_keyed_values:
  assumes "\<forall>p\<in>set m. fst p = ID (snd p)" and "inj_on ID (insert c (snd ` set m))"
  shows "snd ` set (AList.update (ID c) c m) = insert c (snd ` set m)"
  using assms
proof (induction m)
  case Nil
  show ?case by simp
next
  case (Cons p ps)
  show ?case
  proof (cases "fst p = ID c")
    case True
    with Cons.prems(1) have "ID (snd p) = ID c" by simp
    moreover have "snd p \<in> insert c (snd ` set (p # ps))" "c \<in> insert c (snd ` set (p # ps))"
      by simp_all
    ultimately have "snd p = c" using Cons.prems(2) by (meson inj_onD)
    with True show ?thesis by auto
  next
    case False
    have "inj_on ID (insert c (snd ` set ps))"
      using Cons.prems(2) by (rule inj_on_subset) auto
    with Cons.IH Cons.prems(1) have "snd ` set (AList.update (ID c) c ps) = insert c (snd ` set ps)"
      by simp
    with False show ?thesis by auto
  qed
qed

lemma update_keyed:
  assumes "\<forall>p\<in>set m. fst p = ID (snd p)"
  shows "\<forall>p\<in>set (AList.update (ID c) c m). fst p = ID (snd p)"
  using assms by (induction m) auto

lemma putAll_keyed_values:
  "\<forall>p\<in>set m. fst p = ID (snd p) \<Longrightarrow> inj_on ID (snd ` set m \<union> set cs) \<Longrightarrow>
     (\<forall>p\<in>set (putAll m cs). fst p = ID (snd p))
     \<and> snd ` set (putAll m cs) = snd ` set m \<union> set cs"
proof (induction cs arbitrary: m)
  case Nil
  then show ?case by simp
next
  case (Cons c cs)
  have i1: "inj_on ID (insert c (snd ` set m))"
    using Cons.prems(2) by (rule inj_on_subset) auto
  note v = update_keyed_values[OF Cons.prems(1) i1]
  note k = update_keyed[OF Cons.prems(1), of c]
  have i2: "inj_on ID (snd ` set (AList.update (ID c) c m) \<union> set cs)"
    unfolding v using Cons.prems(2) by (rule inj_on_subset) auto
  from Cons.IH[OF k i2] v show ?case by auto
qed

lemma inj_on_ID_rows: "distinct (map ID (rows st)) \<Longrightarrow> inj_on ID (set (rows st))"
  by (simp add: distinct_map)

lemma live_rows: "live st \<subseteq> set (rows st)"
  by (auto simp: live_def)

lemma putAll_live:
  assumes "distinct (map ID (rows st))" and "\<forall>p\<in>set m. fst p = ID (snd p)"
    and "snd ` set m \<subseteq> live st" and "set cs \<subseteq> live st"
  shows "(\<forall>p\<in>set (putAll m cs). fst p = ID (snd p))
     \<and> snd ` set (putAll m cs) = snd ` set m \<union> set cs"
proof -
  have "snd ` set m \<union> set cs \<subseteq> set (rows st)"
    using assms(3,4) live_rows[of st] by blast
  with inj_on_ID_rows[OF assms(1)] have "inj_on ID (snd ` set m \<union> set cs)"
    by (rule inj_on_subset)
  with assms(2) show ?thesis by (rule putAll_keyed_values)
qed

lemma queryAllLinked_values:
  "queryAllLinked e ls m st = (Inr m', st') \<Longrightarrow> env_ok e \<Longrightarrow> distinct (map ID (rows st)) \<Longrightarrow>
   \<forall>p\<in>set m. fst p = ID (snd p) \<Longrightarrow> snd ` set m \<subseteq> live st \<Longrightarrow>
     snd ` set m' = snd ` set m \<union> {c \<in> live st. \<exists>l\<in>set ls. LinkedID c = Some l}"
proof (induction ls arbitrary: m st)
  case Nil
  then show ?case by simp
next
  case (Cons l ls)
  from queryAllLinked_Cons_Inr[OF Cons.prems(1)] obtain cs st1 where
    q: "queryContactsByLinkedID e l st = (Inr cs, st1)"
    and r: "queryAllLinked e ls (putAll m cs) st1 = (Inr m', st')"
    by blast
  from q have cs: "set cs = {c \<in> live st. LinkedID c = Some l}" and r1: "rows st1 = rows st"
    unfolding queryContactsByLinkedID_def live_def
    using queryContacts_Inr(1,3)[OF _ Cons.prems(2)] by auto
  have l1: "live st1 = live st" using r1 by (rule live_cong)
  have sub: "set cs \<subseteq> live st" using cs by blast
  note pa = putAll_live[OF Cons.prems(3,4,5) sub]
  have "snd ` set (putAll m cs) \<subseteq> live st1"
    unfolding l1 using pa Cons.prems(5) sub by blast
  from Cons.IH[OF r Cons.prems(2) _ _ this] pa Cons.prems(3) r1 l1
  have "snd ` set m' = (snd ` set m \<union> set cs) \<union> {c \<in> live st. \<exists>l\<in>set ls. LinkedID c = Some l}"
    by simp
  then show ?case unfolding cs by auto
qed

lemma addByEmail_values:
  assumes "addByEmail e em m st = (Inr m', st')" and "env_ok e" and "distinct (map ID (rows st))"
    and "\<forall>p\<in>set m. fst p = ID (snd p)" and "snd ` set m \<subseteq> live st"
  shows "(\<forall>p\<in>set m'. fst p = ID (snd p))
       \<and> snd ` set m' = snd ` set m \<union> {c \<in> live st. \<exists>a. em = Some a \<and> a \<noteq> [] \<and> Email c = Some a}"
proof (cases "\<exists>x. em = Some x \<and> x \<noteq> []")
  case True
  then obtain x where x: "em = Some x" "x \<noteq> []" by blast
  with assms(1) have "(case queryContactsByEmail e x st of
             (Inl err, s) \<Rightarrow> (Inl err, s)
           | (Inr contacts, s) \<Rightarrow> (Inr (putAll m contacts), s)) = (Inr m', st')"
    by (simp add: addByEmail_def)
  then obtain contacts s where q: "queryContactsByEmail e x st = (Inr contacts, s)"
    and m: "(Inr (putAll m contacts), s) = (Inr m', st')"
    by (rule bindE) blast
  from m have m': "m' = putAll m contacts" by simp
  from q have cs: "set contacts = {c \<in> live st. Email c = Some x}"
    unfolding queryContactsByEmail_def live_def
    using queryContacts_Inr(1)[OF _ assms(2)] by auto
  then have sub: "set contacts \<subseteq> live st" by blast
  from putAll_live[OF assms(3,4,5) sub] show ?thesis
    unfolding m' cs using x by auto
next
  case False
  then have "addByEmail e em m st = (Inr m, st)"
    by (cases em) (auto simp: addByEmail_def)
  with assms(1,4) False show ?thesis by auto
qed

lemma addByPhoneNumber_values:
  assumes "addByPhoneNumber e ph m st = (Inr m', st')" and "env_ok e"
    and "distinct (map ID (rows st))"
    and "\<forall>p\<in>set m. fst p = ID (snd p)" and "snd ` set m \<subseteq> live st"
  shows "(\<forall>p\<in>set m'. fst p = ID (snd p))
       \<and> snd ` set m' = snd ` set m
            \<union> {c \<in> live st. \<exists>b. ph = Some b \<and> b \<noteq> [] \<and> PhoneNumber c = Some b}"
proof (cases "\<exists>x. ph = Some x \<and> x \<noteq> []")
  case True
  then obtain x where x: "ph = Some x" "x \<noteq> []" by blast
  with assms(1) have "(case queryContactsByPhoneNumber e x st of
             (Inl err, s) \<Rightarrow> (Inl err, s)
           | (Inr contacts, s) \<Rightarrow> (Inr (putAll m contacts), s)) = (Inr m', st')"
    by (simp add: addByPhoneNumber_def)
  then obtain contacts s where q: "queryContactsByPhoneNumber e x st = (Inr contacts, s)"
    and m: "(Inr (putAll m contacts), s) = (Inr m', st')"
    by (rule bindE) blast
  from m have m': "m' = putAll m contacts" by simp
  from q have cs: "set contacts = {c \<in> live st. PhoneNumber c = Some x}"
    unfolding queryContactsByPhoneNumber_def live_def
    using queryContacts_Inr(1)[OF _ assms(2)] by auto
  then have sub: "set contacts \<subseteq> live st" by blast
  from putAll_live[OF assms(3,4,5) sub] show ?thesis
    unfolding m' cs using x by auto
next
  case False
  then have "addByPhoneNumber e ph m st = (Inr m, st)"
    by (cases ph) (auto simp: addByPhoneNumber_def)
  with assms(1,4) False show ?thesis by auto
qed

lemma set_allLinkedIDs: "set (allLinkedIDs m) = {l. \<exists>c\<in>snd ` set m. LinkedID c = Some l}"
  unfolding allLinkedIDs_def set_remdups set_map_filter by auto

text \<open>
  Discovery, as the code does it: on a table with unique ids the touched set is exactly
  \<open>touched\<close>. A record enters it by matching the request or by having the \<open>linked_id\<close>
  of a matched record; the record that a linked id names does not enter it for that.
\<close>

lemma findLinkedContacts_touched:
  assumes "env_ok e" and "distinct (map ID (rows st))"
    and "findLinkedContacts e em ph st = (Inr cs, st')"
  shows "set cs = touched em ph st"
proof -
  from findLinkedContacts_InrD[OF assms(3)] obtain m1 st1 m2 st2 m3
    where a: "addByEmail e em [] st = (Inr m1, st1)"
    and b: "addByPhoneNumber e ph m1 st1 = (Inr m2, st2)"
    and c: "queryAllLinked e (linkedIDOrder e (allLinkedIDs m2)) m2 st2 = (Inr m3, st')"
    and cs: "cs = contactOrder e (map snd m3)"
    by blast
  from addByEmail_Inr[OF a assms(1)]
  have r1: "rows st1 = rows st" by simp
  have l1: "live st1 = live st" using r1 by (rule live_cong)
  from addByEmail_values[OF a assms(1,2)]
  have k1: "\<forall>p\<in>set m1. fst p = ID (snd p)"
    and v1: "snd ` set m1 = {c \<in> live st. \<exists>a. em = Some a \<and> a \<noteq> [] \<and> Email c = Some a}"
    by simp_all
  have s1: "snd ` set m1 \<subseteq> live st1" unfolding l1 v1 by blast
  from addByPhoneNumber_Inr[OF b assms(1) s1]
  have r2: "rows st2 = rows st" using r1 by simp
  have l2: "live st2 = live st" using r2 by (rule live_cong)
  from addByPhoneNumber_values[OF b assms(1) _ k1 s1] assms(2) r1 l1
  have k2: "\<forall>p\<in>set m2. fst p = ID (snd p)"
    and v2: "snd ` set m2 = snd ` set m1
            \<union> {c \<in> live st. \<exists>b. ph = Some b \<and> b \<noteq> [] \<and> PhoneNumber c = Some b}"
    by simp_all
  have m2: "snd ` set m2 = matched em ph st"
    unfolding v2 v1 matched_def by blast
  have s2: "snd ` set m2 \<subseteq> live st2" unfolding l2 m2 matched_def by blast
  from queryAllLinked_values[OF c assms(1) _ k2 s2] assms(2) r2 l2
  have "snd ` set m3 = snd ` set m2
     \<union> {c \<in> live st. \<exists>l\<in>set (linkedIDOrder e (allLinkedIDs m2)). LinkedID c = Some l}"
    by simp
  then have "snd ` set m3 = matched em ph st
     \<union> {c \<in> live st. \<exists>m\<in>matched em ph st. \<exists>l. LinkedID m = Some l \<and> LinkedID c = Some l}"
    unfolding env_ok_set(2)[OF assms(1)] set_allLinkedIDs m2 by blast
  moreover have "set cs = snd ` set m3"
    using cs env_ok_set(3)[OF assms(1)] by simp
  ultimately show ?thesis unfolding touched_def by simp
qed

text \<open>
  What normalization reaches: after a successful Identify with a non-empty touched set,
  every stored record of the touched set is in the target state for the primary the
  response names. Records outside the touched set are as they were (\<open>Identify_found\<close>).
\<close>

lemma Identify_normalizes_touched:
  assumes "env_ok e" and "store_ok st"
    and "findLinkedContacts e (email req) (phoneNumber req) st = (Inr cs, st1)" and "cs \<noteq> []"
    and "Identify e req st = (Inr resp, st')"
  shows "\<forall>c\<in>set cs. \<forall>r\<in>set (rows st'). ID r = ID c \<longrightarrow> inTargetState (PrimaryContactID resp) r"
proof -
  note fl = findLinkedContacts_Inr[OF assms(3,1)]
  from Identify_InrD[OF assms(5)] assms(3,4) obtain p sl st2 st3 where
    o: "findOldestContact cs = (Some p, sl)"
    and n: "if hasNewInformation sl (email req) (phoneNumber req)
              then (\<exists>c. createSecondaryContact e (email req) (phoneNumber req) (ID p) st1
                          = (Inr c, st2))
              else st2 = st1"
    and rc: "reconcilePrimaryStatus e sl (ID p) st2 = (Inr (), st3)"
    and b: "buildResponse e (ID p) st3 = (Inr resp, st')"
    by auto
  from findOldestContact_Some[OF assms(4)] o have "sl = sortSlice cs" by auto
  then have ssl: "set sl = set cs" using sortSlice_set by simp
  from assms(2) have d: "distinct (map ID (rows st))"
    and lt: "\<forall>r\<in>set (rows st). ID r < nextID st"
    unfolding store_ok_def by blast+
  have sub: "set cs \<subseteq> set (rows st)" using fl(3) live_rows by blast
  have snap: "\<forall>c\<in>set sl. \<forall>r\<in>set (rows st2). ID r = ID c \<longrightarrow> r = c \<or> inTargetState (ID p) r"
  proof (intro ballI impI)
    fix c r assume c: "c \<in> set sl" and r: "r \<in> set (rows st2)" and i: "ID r = ID c"
    from c ssl sub have c0: "c \<in> set (rows st)" by blast
    have "r \<in> set (rows st)"
    proof (cases "hasNewInformation sl (email req) (phoneNumber req)")
      case True
      with n obtain new where
        "createSecondaryContact e (email req) (phoneNumber req) (ID p) st1 = (Inr new, st2)"
        by auto
      from createSecondaryContact_Inr[OF this] fl
      have "rows st2 = rows st @ [new]" "ID new = nextID st" by simp_all
      moreover have "ID r \<noteq> nextID st" using i c0 lt by auto
      ultimately show ?thesis using r by auto
    next
      case False
      with n fl r show ?thesis by simp
    qed
    with c0 i d have "r = c" by (rule_tac distinct_ID_eq)
    then show "r = c \<or> inTargetState (ID p) r" ..
  qed
  from reconcile_reaches_target[OF snap rc]
  have "\<forall>c\<in>set sl. \<forall>r\<in>set (rows st3). ID r = ID c \<longrightarrow> inTargetState (ID p) r" .
  moreover have "rows st' = rows st3" using buildResponse_Inr(1)[OF b] .
  moreover have "PrimaryContactID resp = ID p"
    using buildResponse_Inr(3)[OF b] by (simp split: prod.splits)
  ultimately show ?thesis using ssl by simp
qed

text \<open>
  The schema's constraints hold of the empty store (\<open>store_ok_emptyStore\<close>) and after
  every run of successful calls from a store of which they hold.
\<close>

lemma identifyAll_store_ok:
  "\<forall>c\<in>set calls. env_ok (fst c) \<Longrightarrow> store_ok st \<Longrightarrow> identifyAll calls st = (Inr u, st')
     \<Longrightarrow> store_ok st'"
proof (induction calls arbitrary: st)
  case Nil
  then show ?case by simp
next
  case (Cons c calls)
  obtain e req where c: "c = (e, req)" by (cases c)
  from Cons.prems(3) obtain resp st1 where
    i: "Identify e req st = (Inr resp, st1)" and r: "identifyAll calls st1 = (Inr u, st')"
    unfolding c identifyAll.simps by (rule bindE) blast
  from Cons.prems(1) c have e: "env_ok e" by simp
  from Identify_store_ok[OF e Cons.prems(2) i] have "store_ok st1" .
  from Cons.IH[OF _ this r] Cons.prems(1) show ?case by simp
qed

subsection \<open>C1, C2, C3: discovery does not fetch the whole group\<close>

text \<open>
  C3 fails on the code. In \<open>linkedStore\<close> record 2 is linked to record 1. Discovery for
  the email of record 2 finds record 2 and its linked id 1, and \<open>queryContactsByLinkedID\<close>
  selects by \<open>linked_id\<close> alone: the touched set is record 2, without the root record 1
  that the group of id 1 holds. Identify then makes record 2 a primary beside record 1.
\<close>

theorem discovery_misses_root:
  "fst (findLinkedContacts (plainEnv 3) (Some ''b@x.com'') None linkedStore) =
     Inr [\<lparr>ID = 2, PhoneNumber = Some ''111'', Email = Some ''b@x.com'', LinkedID = Some 1,
           LinkPrecedence = ''secondary'', CreatedAt = 2, UpdatedAt = 2, DeletedAt = None\<rparr>]
   \<and> map ID (groupOf 1 linkedStore) = [1, 2]
   \<and> fst (Identify (plainEnv 3) \<lparr>email = Some ''b@x.com'', phoneNumber = None\<rparr> linkedStore) =
       Inr \<lparr>PrimaryContactID = 2, Emails = [''b@x.com''], PhoneNumbers = [''111''],
            SecondaryContactIDs = []\<rparr>
   \<and> map LinkPrecedence (rows (snd (Identify (plainEnv 3)
         \<lparr>email = Some ''b@x.com'', phoneNumber = None\<rparr> linkedStore))) = [''primary'', ''primary'']
   \<and> rows (snd (identifyAll
         [(plainEnv 1, \<lparr>email = Some ''a@x.com'', phoneNumber = Some ''111''\<rparr>),
          (plainEnv 2, \<lparr>email = Some ''b@x.com'', phoneNumber = Some ''111''\<rparr>)] emptyStore))
       = rows linkedStore"
  by code_simp

text \<open>
  C1 fails on the code. The four calls of \<open>mergeCalls\<close>, from the empty store, all
  succeed and leave record 3 secondary and linked to record 2, which is itself secondary
  and linked to record 1.
\<close>

theorem merge_leaves_chain:
  "fst (identifyAll mergeCalls emptyStore) = Inr ()
   \<and> map ID (rows (snd (identifyAll mergeCalls emptyStore))) = [1, 2, 3]
   \<and> map LinkPrecedence (rows (snd (identifyAll mergeCalls emptyStore)))
       = [''primary'', ''secondary'', ''secondary'']
   \<and> map LinkedID (rows (snd (identifyAll mergeCalls emptyStore))) = [None, Some 1, Some 2]"
  by code_simp

text \<open>
  C2 fails on the code. In \<open>groupedStore\<close> record 1 is the older primary A, record 2 the
  newer primary B, record 3 a secondary of B. Identify with the email of A and the phone
  number of B makes B secondary under A and leaves record 3 linked to B; the response
  lacks record 3 and its phone number.
\<close>

theorem merge_keeps_old_links:
  "fst (Identify (plainEnv 4) \<lparr>email = Some ''a@x.com'', phoneNumber = Some ''222''\<rparr> groupedStore)
     = Inr \<lparr>PrimaryContactID = 1, Emails = [''a@x.com'', ''b@x.com''],
            PhoneNumbers = [''111'', ''222''], SecondaryContactIDs = [2]\<rparr>
   \<and> map LinkPrecedence (rows (snd (Identify (plainEnv 4)
         \<lparr>email = Some ''a@x.com'', phoneNumber = Some ''222''\<rparr> groupedStore)))
       = [''primary'', ''secondary'', ''secondary'']
   \<and> map LinkedID (rows (snd (Identify (plainEnv 4)
         \<lparr>email = Some ''a@x.com'', phoneNumber = Some ''222''\<rparr> groupedStore)))
       = [None, Some 1, Some 2]
   \<and> rows (snd (identifyAll (take 3 mergeCalls) emptyStore)) = rows groupedStore"
  by code_simp

end
